theory Spec2Isabelle
  imports Main "HOL-Library.AList" "HOL-Library.Sublist"
begin

section \<open>Python strings\<close>

text \<open>
  A Python \<open>str\<close> is a sequence of Unicode code points. A code point is a natural
  number and a string is a list of them; \<open>ustr\<close> embeds an ASCII literal.
\<close>

type_synonym uchar = nat
type_synonym ustring = "nat list"

definition ord :: "char \<Rightarrow> uchar" where
  "ord c = of_char c"

definition ustr :: "string \<Rightarrow> ustring" where
  "ustr s = map ord s"

text \<open>
  The tables of Python's Unicode database that the program reads through \<open>str.strip\<close>
  (\<open>str.isspace\<close>), \<open>\d\<close> and \<open>\w\<close>. They belong to the interpreter, not to the
  repository, and are a parameter of everything below.
\<close>

record unicode =
  isspace :: "uchar \<Rightarrow> bool"
  isdecimal :: "uchar \<Rightarrow> bool"
  isword :: "uchar \<Rightarrow> bool"

text \<open>The tables restricted to ASCII, for evaluating ASCII and CJK examples.\<close>

definition in_range :: "char \<Rightarrow> char \<Rightarrow> uchar \<Rightarrow> bool" where
  "in_range lo hi c = (ord lo \<le> c \<and> c \<le> ord hi)"

definition ascii_tables :: unicode where
  "ascii_tables =
     \<lparr> isspace = (\<lambda>c. (9 \<le> c \<and> c \<le> 13) \<or> (28 \<le> c \<and> c \<le> 32)),
       isdecimal = in_range CHR ''0'' CHR ''9'',
       isword = (\<lambda>c. in_range CHR ''a'' CHR ''z'' c \<or> in_range CHR ''A'' CHR ''Z'' c
                    \<or> in_range CHR ''0'' CHR ''9'' c \<or> c = ord CHR ''_'') \<rparr>"

text \<open>\<open>sub in s\<close>, \<open>s.startswith(p)\<close> is \<open>prefix p s\<close>.\<close>

fun py_in :: "ustring \<Rightarrow> ustring \<Rightarrow> bool" where
  "py_in sub [] = (sub = [])"
| "py_in sub (c # cs) = (prefix sub (c # cs) \<or> py_in sub cs)"

text \<open>
  \<open>s.replace(old, new)\<close>: every occurrence of \<open>old\<close>, found from the left and not
  overlapping, becomes \<open>new\<close>. An empty \<open>old\<close> matches before every character and
  at the end.
\<close>

function py_replace :: "ustring \<Rightarrow> ustring \<Rightarrow> ustring \<Rightarrow> ustring" where
  "py_replace [] old new = (if old = [] then new else [])"
| "py_replace (c # cs) old new =
     (if old = [] then new @ c # py_replace cs old new
      else if prefix old (c # cs) then new @ py_replace (drop (length old) (c # cs)) old new
      else c # py_replace cs old new)"
  by pat_completeness auto
termination
  by (relation "measure (\<lambda>(s, old, new). length s)") auto

definition lstrip :: "unicode \<Rightarrow> ustring \<Rightarrow> ustring" where
  "lstrip U s = dropWhile (isspace U) s"

definition rstrip :: "unicode \<Rightarrow> ustring \<Rightarrow> ustring" where
  "rstrip U s = rev (dropWhile (isspace U) (rev s))"

definition strip :: "unicode \<Rightarrow> ustring \<Rightarrow> ustring" where
  "strip U s = rstrip U (lstrip U s)"

text \<open>\<open>str(n)\<close> of a non-negative integer: its decimal digits.\<close>

fun str_nat :: "nat \<Rightarrow> ustring" where
  "str_nat n = (if n < 10 then [48 + n] else str_nat (n div 10) @ [48 + n mod 10])"

declare str_nat.simps [simp del]

section \<open>Regular expressions\<close>

text \<open>
  The fragment of \<open>re\<close> that the program's patterns use. \<open>ends r s\<close> lists the
  remainders of \<open>s\<close> after each way \<open>r\<close> matches a prefix of it, in the order in which
  the backtracking matcher tries them: the first alternative first, the longest repetition
  first. \<open>Eos\<close> is \<open>$\<close>, which also matches before a final newline. The \<open>^\<close> of the
  patterns is left out: they are only used with \<open>fullmatch\<close>, which starts at the
  beginning.
\<close>

datatype re =
    Cls "uchar \<Rightarrow> bool"
  | Seq re re
  | Alt re re
  | Opt re
  | Rep "uchar \<Rightarrow> bool" nat "nat option"
  | Eos

fun rep_ends :: "(uchar \<Rightarrow> bool) \<Rightarrow> nat \<Rightarrow> nat option \<Rightarrow> ustring \<Rightarrow> ustring list" where
  "rep_ends p lo hi [] = (if lo = 0 then [[]] else [])"
| "rep_ends p lo hi (c # cs) =
     (if p c \<and> hi \<noteq> Some 0 then rep_ends p (lo - 1) (map_option (\<lambda>h. h - 1) hi) cs else [])
     @ (if lo = 0 then [c # cs] else [])"

fun ends :: "re \<Rightarrow> ustring \<Rightarrow> ustring list" where
  "ends (Cls p) s = (case s of [] \<Rightarrow> [] | c # cs \<Rightarrow> if p c then [cs] else [])"
| "ends (Seq a b) s = concat (map (ends b) (ends a s))"
| "ends (Alt a b) s = ends a s @ ends b s"
| "ends (Opt a) s = ends a s @ [s]"
| "ends (Rep p lo hi) s = rep_ends p lo hi s"
| "ends Eos s = (if s = [] \<or> s = [10] then [s] else [])"

definition fullmatch :: "re \<Rightarrow> ustring \<Rightarrow> bool" where
  "fullmatch r s = ([] \<in> set (ends r s))"

fun search :: "re \<Rightarrow> ustring \<Rightarrow> bool" where
  "search r [] = (ends r [] \<noteq> [])"
| "search r (c # cs) = (ends r (c # cs) \<noteq> [] \<or> search r cs)"

text \<open>
  The text cut at the matches that \<open>re.sub\<close> finds: the leftmost match at each position,
  the next search starting where the match ended. Only matches that consume a character
  are cut out; the placeholder pattern has no other (lemma \<open>placeholder_match_nonempty\<close>).
\<close>

datatype seg = Lit uchar | Match ustring

function segments :: "re \<Rightarrow> ustring \<Rightarrow> seg list" where
  "segments r [] = []"
| "segments r (c # cs) =
     (case ends r (c # cs) of
        [] \<Rightarrow> Lit c # segments r cs
      | rest # _ \<Rightarrow>
          if length rest < length (c # cs)
          then Match (take (length (c # cs) - length rest) (c # cs)) # segments r rest
          else Lit c # segments r cs)"
  by pat_completeness auto
termination
  by (relation "measure (\<lambda>(r, s). length s)") auto

subsection \<open>Character classes and the patterns of the program\<close>

definition lower :: "uchar \<Rightarrow> bool" where "lower = in_range CHR ''a'' CHR ''z''"
definition upper :: "uchar \<Rightarrow> bool" where "upper = in_range CHR ''A'' CHR ''Z''"
definition digit :: "uchar \<Rightarrow> bool" where "digit = in_range CHR ''0'' CHR ''9''"
definition letter :: "uchar \<Rightarrow> bool" where "letter c = (lower c \<or> upper c)"
definition is_chr :: "char \<Rightarrow> uchar \<Rightarrow> bool" where "is_chr k c = (c = ord k)"
definition one_of :: "string \<Rightarrow> uchar \<Rightarrow> bool" where "one_of ks c = (c \<in> set (ustr ks))"
definition dot :: "uchar \<Rightarrow> bool" where "dot c = (c \<noteq> 10)"
definition not_rbrace :: "uchar \<Rightarrow> bool" where "not_rbrace c = (c \<noteq> ord CHR ''}'')"
definition cjk :: "uchar \<Rightarrow> bool" where "cjk c = (0x4e00 \<le> c \<and> c \<le> 0x9fff)"

text \<open>\<^verbatim>\<open>^[a-z0-9_.:/\\-]+$\<close>\<close>
definition RE_IDENTIFIER :: re where
  "RE_IDENTIFIER =
     Seq (Rep (\<lambda>c. lower c \<or> digit c \<or> one_of ''_.:/'' c \<or> c = 92 \<or> is_chr CHR ''-'' c) 1 None) Eos"

text \<open>\<^verbatim>\<open>[\\/].+\.[A-Za-z0-9]{1,6}$\<close>\<close>
definition RE_FILELIKE :: re where
  "RE_FILELIKE =
     Seq (Cls (\<lambda>c. c = 92 \<or> is_chr CHR ''/'' c))
       (Seq (Rep dot 1 None)
         (Seq (Cls (is_chr CHR ''.''))
           (Seq (Rep (\<lambda>c. letter c \<or> digit c) 1 (Some 6)) Eos)))"

text \<open>\<^verbatim>\<open>\{[^}]*[:?!][^}]*\}\<close>\<close>
definition RE_DEBUG_FMT :: re where
  "RE_DEBUG_FMT =
     Seq (Cls (is_chr CHR ''{''))
       (Seq (Rep not_rbrace 0 None)
         (Seq (Cls (one_of '':?!''))
           (Seq (Rep not_rbrace 0 None) (Cls (is_chr CHR ''}'')))))"

text \<open>\<^verbatim>\<open>^[A-Za-z0-9_]+$\<close>\<close>
definition RE_CAMEL_NO_SPACE :: re where
  "RE_CAMEL_NO_SPACE = Seq (Rep (\<lambda>c. letter c \<or> digit c \<or> is_chr CHR ''_'' c) 1 None) Eos"

text \<open>\<^verbatim>\<open>^\W+$\<close> with \<open>re.UNICODE\<close>\<close>
definition RE_PUNCT_ONLY :: "unicode \<Rightarrow> re" where
  "RE_PUNCT_ONLY U = Seq (Rep (\<lambda>c. \<not> isword U c) 1 None) Eos"

text \<open>\<^verbatim>\<open>^\d+(?:\.\d+)?$\<close>\<close>
definition RE_NUMBER_ONLY :: "unicode \<Rightarrow> re" where
  "RE_NUMBER_ONLY U =
     Seq (Rep (isdecimal U) 1 None)
       (Seq (Opt (Seq (Cls (is_chr CHR ''.'')) (Rep (isdecimal U) 1 None))) Eos)"

text \<open>\<^verbatim>\<open>(\{[^}]*\}|%\d*\$?[a-zA-Z]|\$\{[^}]+\})\<close>\<close>
definition RE_PLACEHOLDERS :: "unicode \<Rightarrow> re" where
  "RE_PLACEHOLDERS U =
     Alt (Seq (Cls (is_chr CHR ''{'')) (Seq (Rep not_rbrace 0 None) (Cls (is_chr CHR ''}''))))
       (Alt (Seq (Cls (is_chr CHR ''%''))
               (Seq (Rep (isdecimal U) 0 None)
                 (Seq (Opt (Cls (is_chr CHR ''$''))) (Cls letter))))
            (Seq (Cls (is_chr CHR ''$''))
               (Seq (Cls (is_chr CHR ''{''))
                 (Seq (Rep not_rbrace 1 None) (Cls (is_chr CHR ''}''))))))"

section \<open>Placeholders\<close>

definition token :: "nat \<Rightarrow> ustring" where
  "token i = ustr ''__PH'' @ str_nat i @ ustr ''__''"

text \<open>
  \<open>re.sub(repl, text)\<close> calls \<open>repl\<close> on each match from left to right; \<open>repl\<close> appends
  the matched text to \<open>placeholders\<close> and returns the token numbered by its index.
\<close>

fun repl_all :: "ustring list \<Rightarrow> seg list \<Rightarrow> ustring \<times> ustring list" where
  "repl_all placeholders [] = ([], placeholders)"
| "repl_all placeholders (Lit c # sg) =
     (case repl_all placeholders sg of (masked, phs) \<Rightarrow> (c # masked, phs))"
| "repl_all placeholders (Match g # sg) =
     (let placeholders1 = placeholders @ [g] in
      case repl_all placeholders1 sg of
        (masked, phs) \<Rightarrow> (token (length placeholders1 - 1) @ masked, phs))"

definition mask_placeholders :: "unicode \<Rightarrow> ustring \<Rightarrow> ustring \<times> ustring list" where
  "mask_placeholders U text = repl_all [] (segments (RE_PLACEHOLDERS U) text)"

text \<open>
  The loop of \<open>_unmask_placeholders\<close> from index \<open>i\<close> on; \<open>None\<close> is its early
  \<open>return False, text\<close>.
\<close>

fun unmask_loop :: "nat \<Rightarrow> ustring list \<Rightarrow> ustring \<Rightarrow> ustring option" where
  "unmask_loop i [] out = Some out"
| "unmask_loop i (ph # phs) out =
     (if \<not> py_in (token i) out then None
      else unmask_loop (i + 1) phs (py_replace out (token i) ph))"

definition unmask_placeholders :: "ustring \<Rightarrow> ustring list \<Rightarrow> bool \<times> ustring" where
  "unmask_placeholders text placeholders =
     (case unmask_loop 0 placeholders text of
        None \<Rightarrow> (False, text)
      | Some out \<Rightarrow> if py_in (ustr ''__PH'') out then (False, out) else (True, out))"

section \<open>Risk classification\<close>

definition uppercase_start :: "unicode \<Rightarrow> ustring \<Rightarrow> bool" where
  "uppercase_start U s = (case lstrip U s of [] \<Rightarrow> False | c # _ \<Rightarrow> upper c)"

definition contains_letters :: "ustring \<Rightarrow> bool" where
  "contains_letters s = search (Cls letter) s"

definition is_high_risk :: "unicode \<Rightarrow> ustring \<Rightarrow> bool" where
  "is_high_risk U text =
     (let t = strip U text in
      if t = [] then True
      else if length t > 180 then True
      else if py_in (ustr ''://'') t \<or> prefix (ustr ''mailto:'') t then True
      else if search RE_FILELIKE t then True
      else if fullmatch RE_IDENTIFIER t then True
      else if list_ex (\<lambda>x. py_in x t) [ustr ''::'', ustr ''->'', ustr ''=>''] then True
      else if search RE_DEBUG_FMT t then True
      else if fullmatch (RE_PUNCT_ONLY U) t \<or> fullmatch (RE_NUMBER_ONLY U) t then True
      else if \<not> py_in (ustr '' '') t \<and> fullmatch RE_CAMEL_NO_SPACE t
              \<and> search (Cls lower) t \<and> search (Cls upper) t then True
      else False)"

definition SAFE_SINGLE_WORDS :: "ustring list" where
  "SAFE_SINGLE_WORDS =
     map ustr [''OK'', ''Ok'', ''Cancel'', ''Search'', ''Find'', ''Replace'', ''Preferences'',
               ''Help'', ''About'', ''Yes'', ''No'']"

definition DEFAULT_PREFIX_WHITELIST :: "ustring list" where
  "DEFAULT_PREFIX_WHITELIST =
     map ustr [''zed/crates/assistant/src/'', ''zed/crates/assistant2/src/'',
               ''zed/crates/collab_ui/src/'', ''zed/crates/workspace/src/'',
               ''zed/crates/project_panel/src/'', ''zed/crates/search/src/'',
               ''zed/crates/file_finder/src/'', ''zed/crates/diagnostics/src/'',
               ''zed/crates/tasks_ui/src/'', ''zed/crates/zed/src/'']"

definition path_whitelisted :: "ustring \<Rightarrow> ustring list \<Rightarrow> bool" where
  "path_whitelisted file_path pfxs = list_ex (\<lambda>p. prefix p file_path) pfxs"

definition uiish :: "unicode \<Rightarrow> ustring \<Rightarrow> bool" where
  "uiish U src = (uppercase_start U src \<or> strip U src \<in> set SAFE_SINGLE_WORDS)"

definition has_cjk :: "ustring \<Rightarrow> bool" where
  "has_cjk s = search (Cls cjk) s"

section \<open>The document, the statistics and the state of a run\<close>

text \<open>
  What \<open>json.load\<close> returns. An object is a Python \<open>dict\<close>: its items in insertion
  order, with distinct keys. Numbers are never inspected and keep their literal text.
\<close>

datatype json =
    JNull
  | JBool bool
  | JNum ustring
  | JStr ustring
  | JArr "json list"
  | JObj "(ustring \<times> json) list"

text \<open>\<open>v is None or v == ""\<close>, which is also \<open>v in (None, "")\<close>.\<close>

definition is_empty :: "json \<Rightarrow> bool" where
  "is_empty v = (v = JNull \<or> v = JStr [])"

definition wf_dict :: "(ustring \<times> json) list \<Rightarrow> bool" where
  "wf_dict m = distinct (map fst m)"

record stats =
  scanned_empty :: int
  eligible :: int
  filled :: int
  skipped_high_risk :: int
  skipped_not_whitelisted :: int
  skipped_not_uiish :: int
  skipped_translation_failed :: int
  skipped_no_chinese :: int

record args =
  arg_max :: int
  arg_require_uppercase_start :: bool
  arg_prefix :: "ustring list"

text \<open>
  The translation service is the outcome of one call of \<open>_google_translate\<close>: given the
  texts requested so far and the text requested now, it raises (\<open>Inl\<close> the message) or
  returns the joined segments (\<open>Inr\<close>).
\<close>

type_synonym service = "ustring list \<Rightarrow> ustring \<Rightarrow> ustring + ustring"

text \<open>
  How the translation of a submitted entry ends: counted as \<open>skipped_translation_failed\<close>,
  counted as \<open>skipped_no_chinese\<close> with the stripped unmasked translation, or written and
  counted as \<open>filled\<close> with the value written.
\<close>

datatype outcome =
    is_Failed: Failed
  | is_NoChinese: NoChinese ustring
  | is_Filled: Filled ustring

text \<open>
  The state of a run: the statistics, the cache, the local counter \<open>filled\<close>, the requests
  sent to the service, and two logs that the program does not keep, for stating what is
  submitted and what is counted: the entries, as file path and original string, for which
  \<open>_translate_with_retries\<close> was called, and how each of them ended.
\<close>

record state =
  st_stats :: stats
  st_cache :: "ustring \<rightharpoonup> ustring"
  st_filled :: int
  st_sent :: "ustring list"
  st_submitted :: "(ustring \<times> ustring) list"
  st_outcomes :: "outcome list"

definition init_stats :: stats where
  "init_stats =
     \<lparr> scanned_empty = 0, eligible = 0, filled = 0, skipped_high_risk = 0,
       skipped_not_whitelisted = 0, skipped_not_uiish = 0, skipped_translation_failed = 0,
       skipped_no_chinese = 0 \<rparr>"

definition init_state :: state where
  "init_state =
     \<lparr> st_stats = init_stats, st_cache = Map.empty, st_filled = 0, st_sent = [],
       st_submitted = [], st_outcomes = [] \<rparr>"

text \<open>\<open>stats.field += 1\<close>\<close>

definition count :: "((int \<Rightarrow> int) \<Rightarrow> stats \<Rightarrow> stats) \<Rightarrow> state \<Rightarrow> state" where
  "count field st = st\<lparr>st_stats := field (\<lambda>n. n + 1) (st_stats st)\<rparr>"

text \<open>The log of outcomes grows by one.\<close>

definition ended :: "outcome \<Rightarrow> state \<Rightarrow> state" where
  "ended oc st = st\<lparr>st_outcomes := st_outcomes st @ [oc]\<rparr>"

section \<open>Translation with retries\<close>

text \<open>
  The \<open>for attempt in range(3)\<close> loop with \<open>k\<close> attempts left. Every exception of the
  call is caught; the sleeps are not modelled.
\<close>

fun attempts ::
  "unicode \<Rightarrow> service \<Rightarrow> nat \<Rightarrow> ustring \<Rightarrow> ustring \<Rightarrow> state \<Rightarrow> (bool \<times> ustring) \<times> state" where
  "attempts U svc 0 text last_err st = ((False, last_err), st)"
| "attempts U svc (Suc k) text last_err st =
     (let st1 = st\<lparr>st_sent := st_sent st @ [text]\<rparr> in
      case svc (st_sent st) text of
        Inl e \<Rightarrow> attempts U svc k text e st1
      | Inr out \<Rightarrow>
          (let out1 = strip U out in
           if out1 \<noteq> [] then ((True, out1), st1\<lparr>st_cache := (st_cache st1)(text \<mapsto> out1)\<rparr>)
           else attempts U svc k text (ustr ''empty translation'') st1))"

definition translate_with_retries ::
  "unicode \<Rightarrow> service \<Rightarrow> ustring \<Rightarrow> state \<Rightarrow> (bool \<times> ustring) \<times> state" where
  "translate_with_retries U svc text st =
     (case st_cache st text of
        Some t \<Rightarrow> ((True, t), st)
      | None \<Rightarrow> attempts U svc 3 text (ustr ''None'') st)"

section \<open>The pass\<close>

text \<open>
  Lines 245 to 266 of \<open>main\<close>: an eligible entry is masked, translated, unmasked,
  validated and written. The result is whether the loop breaks, the mapping and the state.
\<close>

definition translate_entry ::
  "unicode \<Rightarrow> service \<Rightarrow> args \<Rightarrow> ustring \<Rightarrow> ustring \<Rightarrow> (ustring \<times> json) list \<times> state
     \<Rightarrow> bool \<times> (ustring \<times> json) list \<times> state" where
  "translate_entry U svc a file_path original ms =
     (case ms of (mapping, st) \<Rightarrow>
      case mask_placeholders U original of (masked, placeholders) \<Rightarrow>
      case translate_with_retries U svc masked
             (st\<lparr>st_submitted := st_submitted st @ [(file_path, original)]\<rparr>) of
        ((ok, out), st1) \<Rightarrow>
          if \<not> ok
          then (False, mapping, count skipped_translation_failed_update (ended Failed st1))
          else
            case unmask_placeholders out placeholders of (ok2, unmasked) \<Rightarrow>
              if \<not> ok2
              then (False, mapping, count skipped_translation_failed_update (ended Failed st1))
              else
                (let unmasked1 = strip U unmasked in
                 if \<not> has_cjk unmasked1
                 then (False, mapping,
                       count skipped_no_chinese_update (ended (NoChinese unmasked1) st1))
                 else
                   (let mapping1 = AList.update original (JStr unmasked1) mapping;
                        st2 = count filled_update
                                (ended (Filled unmasked1) (st1\<lparr>st_filled := st_filled st1 + 1\<rparr>))
                    in (arg_max a \<le> st_filled st2, mapping1, st2))))"

text \<open>The body of the inner loop, lines 224 to 266.\<close>

definition fill_entry ::
  "unicode \<Rightarrow> service \<Rightarrow> args \<Rightarrow> ustring \<Rightarrow> ustring \<Rightarrow> json \<Rightarrow> (ustring \<times> json) list \<times> state
     \<Rightarrow> bool \<times> (ustring \<times> json) list \<times> state" where
  "fill_entry U svc a file_path original translated ms =
     (case ms of (mapping, st) \<Rightarrow>
      if \<not> is_empty translated then (False, mapping, st)
      else
        (let st1 = count scanned_empty_update st in
         if \<not> contains_letters original then (False, mapping, count skipped_high_risk_update st1)
         else if is_high_risk U original then (False, mapping, count skipped_high_risk_update st1)
         else if arg_require_uppercase_start a \<and> \<not> uiish U original
           then (False, mapping, count skipped_not_uiish_update st1)
         else translate_entry U svc a file_path original
                (mapping, count eligible_update st1)))"

text \<open>
  \<open>for original, translated in list(mapping.items())\<close>: the loop runs over a snapshot of
  the items and leaves at the first \<open>break\<close>.
\<close>

fun inner_loop ::
  "unicode \<Rightarrow> service \<Rightarrow> args \<Rightarrow> ustring \<Rightarrow> (ustring \<times> json) list
     \<Rightarrow> (ustring \<times> json) list \<times> state \<Rightarrow> (ustring \<times> json) list \<times> state" where
  "inner_loop U svc a file_path [] ms = ms"
| "inner_loop U svc a file_path ((original, translated) # items) ms =
     (case fill_entry U svc a file_path original translated ms of
        (brk, ms1) \<Rightarrow> if brk then ms1 else inner_loop U svc a file_path items ms1)"

text \<open>The loop over a mapping whose path is not whitelisted: empties are only counted.\<close>

fun count_not_whitelisted :: "(ustring \<times> json) list \<Rightarrow> state \<Rightarrow> state" where
  "count_not_whitelisted [] st = st"
| "count_not_whitelisted ((k, v) # items) st =
     count_not_whitelisted items
       (if is_empty v then count skipped_not_whitelisted_update (count scanned_empty_update st)
        else st)"

text \<open>\<open>for file_path, mapping in data.items()\<close>, returning the items of \<open>data\<close> after it.\<close>

fun outer_loop ::
  "unicode \<Rightarrow> service \<Rightarrow> args \<Rightarrow> ustring list \<Rightarrow> (ustring \<times> json) list \<Rightarrow> state
     \<Rightarrow> (ustring \<times> json) list \<times> state" where
  "outer_loop U svc a pfxs [] st = ([], st)"
| "outer_loop U svc a pfxs ((file_path, v) # rest) st =
     (case v of
        JObj mapping \<Rightarrow>
          if \<not> path_whitelisted file_path pfxs then
            (case outer_loop U svc a pfxs rest (count_not_whitelisted mapping st) of
               (rest1, st1) \<Rightarrow> ((file_path, v) # rest1, st1))
          else
            (case inner_loop U svc a file_path mapping (mapping, st) of
               (mapping1, st1) \<Rightarrow>
                 if arg_max a \<le> st_filled st1 then ((file_path, JObj mapping1) # rest, st1)
                 else
                   (case outer_loop U svc a pfxs rest st1 of
                      (rest1, st2) \<Rightarrow> ((file_path, JObj mapping1) # rest1, st2)))
      | _ \<Rightarrow>
          (case outer_loop U svc a pfxs rest st of
             (rest1, st1) \<Rightarrow> ((file_path, v) # rest1, st1)))"

text \<open>
  \<open>main\<close> from the loaded document to the document it writes and the final state. A
  document that is not an object has no \<open>items\<close>: the run ends in an \<open>AttributeError\<close>
  before anything is written.
\<close>

datatype error = AttributeError

definition whitelist :: "args \<Rightarrow> ustring list" where
  "whitelist a = (if arg_prefix a = [] then DEFAULT_PREFIX_WHITELIST else arg_prefix a)"

definition main :: "unicode \<Rightarrow> service \<Rightarrow> args \<Rightarrow> json \<Rightarrow> error + json \<times> state" where
  "main U svc a doc =
     (case doc of
        JObj data \<Rightarrow>
          (case outer_loop U svc a (whitelist a) data init_state of
             (data1, st) \<Rightarrow> Inr (JObj data1, st))
      | _ \<Rightarrow> Inl AttributeError)"

section \<open>An example run\<close>

text \<open>
  A service that translates two texts and refuses every other, and a document with a
  whitelisted mapping, a mapping outside the whitelist and a value that is not a mapping.
\<close>

definition svc_demo :: service where
  "svc_demo history text =
     (if text = ustr ''Open __PH0__'' then Inr ([32, 0x6253, 0x5f00, 32] @ ustr ''__PH0__ '')
      else if text = ustr ''OK'' then Inr (ustr ''OK'')
      else Inl (ustr ''HTTP Error 429''))"

definition args_demo :: args where
  "args_demo = \<lparr> arg_max = 250, arg_require_uppercase_start = True, arg_prefix = [] \<rparr>"

definition args_max1 :: args where
  "args_max1 = \<lparr> arg_max = 1, arg_require_uppercase_start = True, arg_prefix = [] \<rparr>"

definition path_demo :: ustring where
  "path_demo = ustr ''zed/crates/zed/src/a.rs''"

definition mapping_demo :: "(ustring \<times> json) list" where
  "mapping_demo =
     [(ustr ''Open {name}'', JStr []), (ustr ''open file'', JNull), (ustr ''foo_bar'', JStr []),
      (ustr ''OK'', JStr []), (ustr ''Done.'', JStr (ustr ''x''))]"

definition mapping_demo_out :: "(ustring \<times> json) list" where
  "mapping_demo_out =
     [(ustr ''Open {name}'', JStr ([0x6253, 0x5f00, 32] @ ustr ''{name}'')),
      (ustr ''open file'', JNull), (ustr ''foo_bar'', JStr []),
      (ustr ''OK'', JStr []), (ustr ''Done.'', JStr (ustr ''x''))]"

definition other_demo :: "(ustring \<times> json) list" where
  "other_demo =
     [(ustr ''other/b.rs'', JObj [(ustr ''Save'', JStr [])]),
      (ustr ''note'', JStr (ustr ''text''))]"

definition data_demo :: "(ustring \<times> json) list" where
  "data_demo = (path_demo, JObj mapping_demo) # other_demo"

definition data_demo_out :: "(ustring \<times> json) list" where
  "data_demo_out = (path_demo, JObj mapping_demo_out) # other_demo"

text \<open>What a run shows of its final state.\<close>

definition report ::
  "error + json \<times> state
     \<Rightarrow> error + json \<times> stats \<times> int \<times> ustring list \<times> (ustring \<times> ustring) list \<times> outcome list" where
  "report r =
     map_sum id
       (\<lambda>(d, st). (d, st_stats st, st_filled st, st_sent st, st_submitted st, st_outcomes st)) r"

section \<open>Predicates of the properties\<close>


text \<open>Every cached translation is the stripped answer of the service to its text.\<close>

definition cache_ok :: "unicode \<Rightarrow> service \<Rightarrow> (ustring \<rightharpoonup> ustring) \<Rightarrow> bool" where
  "cache_ok U svc c =
     (\<forall>text t. c text = Some t \<longrightarrow> (\<exists>history raw. svc history text = Inr raw \<and> t = strip U raw))"

text \<open>
  \<open>x\<close> is a value the pass may write for the original string \<open>k\<close>: the service's answer
  to the masked string, stripped, unmasked with success, stripped again, and holding a CJK
  character.
\<close>

definition written :: "unicode \<Rightarrow> service \<Rightarrow> ustring \<Rightarrow> ustring \<Rightarrow> bool" where
  "written U svc k x =
     (has_cjk x \<and>
      (\<exists>history raw unmasked.
         svc history (fst (mask_placeholders U k)) = Inr raw \<and>
         unmask_placeholders (strip U raw) (snd (mask_placeholders U k)) = (True, unmasked) \<and>
         x = strip U unmasked))"

text \<open>The filters that an original string passes before it is translated.\<close>

definition key_ok :: "unicode \<Rightarrow> args \<Rightarrow> ustring \<Rightarrow> bool" where
  "key_ok U a k =
     (contains_letters k \<and> \<not> is_high_risk U k \<and> (arg_require_uppercase_start a \<longrightarrow> uiish U k))"

text \<open>
  An entry before and after the loop over \<open>items\<close>: the key stays, and the value stays or
  is a written value for a key that passes the filters and is empty in \<open>items\<close>.
\<close>

definition entry_rel ::
  "unicode \<Rightarrow> service \<Rightarrow> args \<Rightarrow> (ustring \<times> json) list \<Rightarrow> ustring \<times> json \<Rightarrow> ustring \<times> json \<Rightarrow> bool" where
  "entry_rel U svc a items e e' =
     (fst e' = fst e \<and>
      (snd e' = snd e \<or>
       (key_ok U a (fst e) \<and> (\<exists>v0. (fst e, v0) \<in> set items \<and> is_empty v0) \<and>
        (\<exists>x. snd e' = JStr x \<and> written U svc (fst e) x))))"

text \<open>An item of the document before and after the pass.\<close>

definition doc_rel ::
  "unicode \<Rightarrow> service \<Rightarrow> args \<Rightarrow> ustring list \<Rightarrow> ustring \<times> json \<Rightarrow> ustring \<times> json \<Rightarrow> bool" where
  "doc_rel U svc a pfxs d d' =
     (fst d' = fst d \<and>
      (case snd d of
         JObj m \<Rightarrow>
           if path_whitelisted (fst d) pfxs
           then \<exists>m'. snd d' = JObj m' \<and> list_all2 (entry_rel U svc a m) m m'
           else snd d' = snd d
       | _ \<Rightarrow> snd d' = snd d))"

text \<open>The number of positions at which two mappings, and two documents, differ.\<close>

definition changed_entries :: "(ustring \<times> json) list \<Rightarrow> (ustring \<times> json) list \<Rightarrow> nat" where
  "changed_entries m m' = length (filter (\<lambda>(e, e'). e \<noteq> e') (zip m m'))"

definition changed_item :: "ustring \<times> json \<Rightarrow> ustring \<times> json \<Rightarrow> nat" where
  "changed_item d d' =
     (case (snd d, snd d') of
        (JObj m, JObj m') \<Rightarrow> changed_entries m m'
      | _ \<Rightarrow> 0)"

definition changed_doc :: "(ustring \<times> json) list \<Rightarrow> (ustring \<times> json) list \<Rightarrow> nat" where
  "changed_doc data data' = sum_list (map (\<lambda>(d, d'). changed_item d d') (zip data data'))"

text \<open>
  A segmented text read three ways: the text itself, the masked text with tokens numbered
  from \<open>n\<close>, and the list of matches.
\<close>

fun orig :: "seg list \<Rightarrow> ustring" where
  "orig [] = []"
| "orig (Lit c # sg) = c # orig sg"
| "orig (Match g # sg) = g @ orig sg"

fun masked_from :: "nat \<Rightarrow> seg list \<Rightarrow> ustring" where
  "masked_from n [] = []"
| "masked_from n (Lit c # sg) = c # masked_from n sg"
| "masked_from n (Match g # sg) = token n @ masked_from (Suc n) sg"

fun holes :: "seg list \<Rightarrow> ustring list" where
  "holes [] = []"
| "holes (Lit c # sg) = holes sg"
| "holes (Match g # sg) = g # holes sg"

text \<open>
  What a logged outcome says about the entry it belongs to. \<open>u\<close> is an unmasked
  translation of the original string \<open>k\<close>: the service's answer to the masked string,
  stripped, unmasked with success and stripped again. The translation of \<open>k\<close> can fail:
  the service raises or answers with nothing but whitespace, or its answer cannot be
  unmasked.
\<close>

definition unmasked_to :: "unicode \<Rightarrow> service \<Rightarrow> ustring \<Rightarrow> ustring \<Rightarrow> bool" where
  "unmasked_to U svc k u =
     (\<exists>history raw unmasked.
        svc history (fst (mask_placeholders U k)) = Inr raw \<and>
        unmask_placeholders (strip U raw) (snd (mask_placeholders U k)) = (True, unmasked) \<and>
        u = strip U unmasked)"

definition failed_for :: "unicode \<Rightarrow> service \<Rightarrow> ustring \<Rightarrow> bool" where
  "failed_for U svc k =
     ((\<exists>history. case svc history (fst (mask_placeholders U k)) of
                   Inl e \<Rightarrow> True
                 | Inr raw \<Rightarrow> strip U raw = []) \<or>
      (\<exists>history raw.
         svc history (fst (mask_placeholders U k)) = Inr raw \<and>
         \<not> fst (unmask_placeholders (strip U raw) (snd (mask_placeholders U k)))))"

fun outcome_ok :: "unicode \<Rightarrow> service \<Rightarrow> ustring \<times> ustring \<Rightarrow> outcome \<Rightarrow> bool" where
  "outcome_ok U svc e Failed = failed_for U svc (snd e)"
| "outcome_ok U svc e (NoChinese u) = (\<not> has_cjk u \<and> unmasked_to U svc (snd e) u)"
| "outcome_ok U svc e (Filled u) = (has_cjk u \<and> unmasked_to U svc (snd e) u)"

text \<open>The counter that an outcome adds one to.\<close>

fun tally :: "outcome \<Rightarrow> stats \<Rightarrow> stats" where
  "tally Failed s = skipped_translation_failed_update (\<lambda>n. n + 1) s"
| "tally (NoChinese u) s = skipped_no_chinese_update (\<lambda>n. n + 1) s"
| "tally (Filled u) s = filled_update (\<lambda>n. n + 1) s"

text \<open>
  The classes of original strings, beside \<open>key_ok\<close>: skipped as high-risk, and skipped
  as not UI-like.
\<close>

definition risky :: "unicode \<Rightarrow> ustring \<Rightarrow> bool" where
  "risky U k = (\<not> contains_letters k \<or> is_high_risk U k)"

definition not_uiish_key :: "unicode \<Rightarrow> args \<Rightarrow> ustring \<Rightarrow> bool" where
  "not_uiish_key U a k =
     (contains_letters k \<and> \<not> is_high_risk U k \<and> arg_require_uppercase_start a \<and> \<not> uiish U k)"

text \<open>
  The entries of the mappings of a document, each with its file path, in the order of the
  document; and among a list of such entries the empty ones whose file path satisfies \<open>Q\<close>
  and whose original string satisfies \<open>P\<close>, as file path and original string.
\<close>

definition entries :: "(ustring \<times> json) list \<Rightarrow> (ustring \<times> ustring \<times> json) list" where
  "entries data =
     concat (map (\<lambda>d. case snd d of JObj m \<Rightarrow> map (\<lambda>e. (fst d, e)) m | _ \<Rightarrow> []) data)"

definition empties ::
  "(ustring \<Rightarrow> bool) \<Rightarrow> (ustring \<Rightarrow> bool) \<Rightarrow> (ustring \<times> ustring \<times> json) list
     \<Rightarrow> (ustring \<times> ustring) list" where
  "empties Q P es =
     map (\<lambda>e. (fst e, fst (snd e)))
       (filter (\<lambda>e. is_empty (snd (snd e)) \<and> Q (fst e) \<and> P (fst (snd e))) es)"

text \<open>
  The part of a document that a run has reached: all of it, or its items up to some
  mapping, with the entries of that mapping up to some entry.
\<close>

definition reaches :: "(ustring \<times> json) list \<Rightarrow> (ustring \<times> json) list \<Rightarrow> bool" where
  "reaches data part =
     (part = data \<or>
      (\<exists>d1 fp m1 m2 d2. data = d1 @ (fp, JObj (m1 @ m2)) # d2 \<and> part = d1 @ [(fp, JObj m1)]))"

text \<open>
  The statistics \<open>s'\<close> are the statistics \<open>s\<close> and one count for each of the entries
  \<open>es\<close> that is empty, in the counter of its class, and one for each of the outcomes
  \<open>ocs\<close>, in the counter of its kind.
\<close>

definition accounted ::
  "unicode \<Rightarrow> args \<Rightarrow> ustring list \<Rightarrow> (ustring \<times> ustring \<times> json) list \<Rightarrow> outcome list
     \<Rightarrow> stats \<Rightarrow> stats \<Rightarrow> bool" where
  "accounted U a pfxs es ocs s s' =
     (scanned_empty s' = scanned_empty s + int (length (empties (\<lambda>fp. True) (\<lambda>k. True) es)) \<and>
      skipped_not_whitelisted s' = skipped_not_whitelisted s
        + int (length (empties (\<lambda>fp. \<not> path_whitelisted fp pfxs) (\<lambda>k. True) es)) \<and>
      skipped_high_risk s' = skipped_high_risk s
        + int (length (empties (\<lambda>fp. path_whitelisted fp pfxs) (risky U) es)) \<and>
      skipped_not_uiish s' = skipped_not_uiish s
        + int (length (empties (\<lambda>fp. path_whitelisted fp pfxs) (not_uiish_key U a) es)) \<and>
      eligible s' = eligible s
        + int (length (empties (\<lambda>fp. path_whitelisted fp pfxs) (key_ok U a) es)) \<and>
      filled s' = filled s + int (length (filter is_Filled ocs)) \<and>
      skipped_translation_failed s' = skipped_translation_failed s
        + int (length (filter is_Failed ocs)) \<and>
      skipped_no_chinese s' = skipped_no_chinese s + int (length (filter is_NoChinese ocs)))"

text \<open>
  From the state \<open>st\<close> to the state \<open>st'\<close> the run has visited the entries \<open>es\<close>: it has
  submitted those that are empty, under a whitelisted path and pass the filters, logged
  one fitting outcome for each of them, and counted every empty one.
\<close>

definition run_account ::
  "unicode \<Rightarrow> service \<Rightarrow> args \<Rightarrow> ustring list \<Rightarrow> (ustring \<times> ustring \<times> json) list
     \<Rightarrow> state \<Rightarrow> state \<Rightarrow> bool" where
  "run_account U svc a pfxs es st st' =
     (\<exists>ocs. st_outcomes st' = st_outcomes st @ ocs \<and>
        st_submitted st' =
          st_submitted st @ empties (\<lambda>fp. path_whitelisted fp pfxs) (key_ok U a) es \<and>
        list_all2 (outcome_ok U svc)
          (empties (\<lambda>fp. path_whitelisted fp pfxs) (key_ok U a) es) ocs \<and>
        accounted U a pfxs es ocs (st_stats st) (st_stats st'))"

section \<open>The statistics\<close>

lemma attempts_frame:
  "attempts U svc k text e st = (r, st') \<Longrightarrow>
     st_stats st' = st_stats st \<and> st_filled st' = st_filled st \<and>
     st_submitted st' = st_submitted st \<and> st_outcomes st' = st_outcomes st"
  by (induction k arbitrary: e st) (auto split: sum.splits if_splits simp: Let_def)

lemma translate_with_retries_frame:
  "translate_with_retries U svc text st = (r, st') \<Longrightarrow>
     st_stats st' = st_stats st \<and> st_filled st' = st_filled st \<and>
     st_submitted st' = st_submitted st \<and> st_outcomes st' = st_outcomes st"
  unfolding translate_with_retries_def
  by (auto split: option.splits dest: attempts_frame)






section \<open>What one entry does\<close>

lemma attempts_cache:
  "attempts U svc n text e st = ((ok, out), st') \<Longrightarrow> cache_ok U svc (st_cache st) \<Longrightarrow>
     cache_ok U svc (st_cache st') \<and>
     (ok \<longrightarrow> (\<exists>history raw. svc history text = Inr raw \<and> out = strip U raw))"
proof (induction n arbitrary: e st)
  case 0
  then show ?case by simp
next
  case (Suc n)
  let ?st1 = "st\<lparr>st_sent := st_sent st @ [text]\<rparr>"
  have c1: "cache_ok U svc (st_cache ?st1)" using Suc.prems(2) by simp
  show ?case
  proof (cases "svc (st_sent st) text")
    case (Inl err)
    with Suc.prems(1) have "attempts U svc n text err ?st1 = ((ok, out), st')"
      by (simp add: Let_def)
    from Suc.IH[OF this c1] show ?thesis .
  next
    case (Inr raw)
    show ?thesis
    proof (cases "strip U raw = []")
      case True
      with Inr Suc.prems(1)
      have "attempts U svc n text (ustr ''empty translation'') ?st1 = ((ok, out), st')"
        by (simp add: Let_def)
      from Suc.IH[OF this c1] show ?thesis .
    next
      case False
      with Inr Suc.prems(1)
      have r: "ok" "out = strip U raw"
        "st' = ?st1\<lparr>st_cache := (st_cache ?st1)(text \<mapsto> strip U raw)\<rparr>"
        by (auto simp: Let_def)
      have "cache_ok U svc (st_cache st')"
        using Suc.prems(2) Inr unfolding r(3) cache_ok_def by auto
      with r Inr show ?thesis by blast
    qed
  qed
qed

lemma translate_with_retries_cache:
  assumes "translate_with_retries U svc text st = ((ok, out), st')"
    and "cache_ok U svc (st_cache st)"
  shows "cache_ok U svc (st_cache st') \<and>
     (ok \<longrightarrow> (\<exists>history raw. svc history text = Inr raw \<and> out = strip U raw))"
proof (cases "st_cache st text")
  case None
  with assms(1) have "attempts U svc 3 text (ustr ''None'') st = ((ok, out), st')"
    by (simp add: translate_with_retries_def)
  from attempts_cache[OF this assms(2)] show ?thesis .
next
  case (Some t)
  with assms(1) have "ok" "out = t" "st' = st" by (auto simp: translate_with_retries_def)
  with assms(2) Some show ?thesis unfolding cache_ok_def by blast
qed

lemma attempts_failed:
  assumes "attempts U svc (Suc n) text e st = ((False, out), st')"
  shows "\<exists>history. case svc history text of Inl e \<Rightarrow> True | Inr raw \<Rightarrow> strip U raw = []"
proof (rule exI[of _ "st_sent st"])
  show "case svc (st_sent st) text of Inl e \<Rightarrow> True | Inr raw \<Rightarrow> strip U raw = []"
    using assms by (cases "svc (st_sent st) text") (auto simp: Let_def split: if_splits)
qed

lemma translate_failed:
  assumes "translate_with_retries U svc text st = ((False, out), st')"
  shows "\<exists>history. case svc history text of Inl e \<Rightarrow> True | Inr raw \<Rightarrow> strip U raw = []"
proof (cases "st_cache st text")
  case None
  with assms have "attempts U svc (Suc (Suc (Suc 0))) text (ustr ''None'') st = ((False, out), st')"
    by (simp add: translate_with_retries_def numeral_3_eq_3)
  then show ?thesis by (rule attempts_failed)
next
  case (Some t)
  with assms show ?thesis by (simp add: translate_with_retries_def)
qed

lemma written_iff: "written U svc k x = (has_cjk x \<and> unmasked_to U svc k x)"
  by (simp add: written_def unmasked_to_def)

text \<open>
  The translation of an eligible entry: the entry is submitted, one outcome is logged and
  counted, and only the outcome \<open>Filled\<close> writes, under the key of the entry.
\<close>

lemma translate_entry_result:
  assumes t: "translate_entry U svc a fp k (m, st) = (brk, m', st')"
    and c: "cache_ok U svc (st_cache st)"
  shows "cache_ok U svc (st_cache st') \<and> st_submitted st' = st_submitted st @ [(fp, k)] \<and>
     (\<exists>oc. st_outcomes st' = st_outcomes st @ [oc] \<and> outcome_ok U svc (fp, k) oc \<and>
        st_stats st' = tally oc (st_stats st) \<and>
        (case oc of
           Filled x \<Rightarrow> m' = AList.update k (JStr x) m \<and> st_filled st' = st_filled st + 1 \<and>
                       brk = (arg_max a \<le> st_filled st')
         | _ \<Rightarrow> m' = m \<and> \<not> brk \<and> st_filled st' = st_filled st))"
proof -
  obtain masked phs where mk: "mask_placeholders U k = (masked, phs)" by force
  let ?st0 = "st\<lparr>st_submitted := st_submitted st @ [(fp, k)]\<rparr>"
  obtain ok out st1 where tr: "translate_with_retries U svc masked ?st0 = ((ok, out), st1)"
    by (metis surj_pair)
  have c0: "cache_ok U svc (st_cache ?st0)" using c by simp
  from translate_with_retries_frame[OF tr]
  have fr: "st_stats st1 = st_stats st" "st_filled st1 = st_filled st"
    "st_submitted st1 = st_submitted st @ [(fp, k)]" "st_outcomes st1 = st_outcomes st"
    by simp_all
  from translate_with_retries_cache[OF tr c0]
  have c1: "cache_ok U svc (st_cache st1)"
    and tc: "ok \<longrightarrow> (\<exists>history raw. svc history masked = Inr raw \<and> out = strip U raw)"
    by simp_all
  obtain ok2 un where um: "unmask_placeholders out phs = (ok2, un)" by force
  consider (fail1) "\<not> ok" | (fail2) "ok" "\<not> ok2" | (nocjk) "ok" "ok2" "\<not> has_cjk (strip U un)"
    | (fill) "ok" "ok2" "has_cjk (strip U un)" by blast
  then show ?thesis
  proof cases
    case fail1
    with t have r: "m' = m" "\<not> brk"
      "st' = count skipped_translation_failed_update (ended Failed st1)"
      by (auto simp: translate_entry_def mk tr um Let_def)
    from fail1 tr have "\<exists>history. case svc history masked of
        Inl e \<Rightarrow> True | Inr raw \<Rightarrow> strip U raw = []"
      by (auto dest: translate_failed)
    then have "outcome_ok U svc (fp, k) Failed" by (auto simp: failed_for_def mk)
    with r fr c1 show ?thesis
      by (intro conjI exI[of _ Failed]) (simp_all add: count_def ended_def)
  next
    case fail2
    with t have r: "m' = m" "\<not> brk"
      "st' = count skipped_translation_failed_update (ended Failed st1)"
      by (auto simp: translate_entry_def mk tr um Let_def)
    from fail2 tc obtain history raw where "svc history masked = Inr raw" "out = strip U raw"
      by blast
    with um fail2 have "svc history masked = Inr raw \<and>
        \<not> fst (unmask_placeholders (strip U raw) phs)" by simp
    then have "\<exists>history raw. svc history masked = Inr raw \<and>
        \<not> fst (unmask_placeholders (strip U raw) phs)" by blast
    then have "outcome_ok U svc (fp, k) Failed" by (auto simp: failed_for_def mk)
    with r fr c1 show ?thesis
      by (intro conjI exI[of _ Failed]) (simp_all add: count_def ended_def)
  next
    case nocjk
    with t have r: "m' = m" "\<not> brk"
      "st' = count skipped_no_chinese_update (ended (NoChinese (strip U un)) st1)"
      by (auto simp: translate_entry_def mk tr um Let_def)
    from nocjk tc obtain history raw where "svc history masked = Inr raw" "out = strip U raw"
      by blast
    with um nocjk have "unmasked_to U svc k (strip U un)"
      unfolding unmasked_to_def mk by auto
    with nocjk have "outcome_ok U svc (fp, k) (NoChinese (strip U un))" by simp
    with r fr c1 show ?thesis
      by (intro conjI exI[of _ "NoChinese (strip U un)"]) (simp_all add: count_def ended_def)
  next
    case fill
    with t have r: "m' = AList.update k (JStr (strip U un)) m"
      "brk = (arg_max a \<le> st_filled st1 + 1)"
      "st' = count filled_update
               (ended (Filled (strip U un)) (st1\<lparr>st_filled := st_filled st1 + 1\<rparr>))"
      by (auto simp: translate_entry_def mk tr um Let_def count_def ended_def)
    from fill tc obtain history raw where "svc history masked = Inr raw" "out = strip U raw"
      by blast
    with um fill have "unmasked_to U svc k (strip U un)"
      unfolding unmasked_to_def mk by auto
    with fill have "outcome_ok U svc (fp, k) (Filled (strip U un))" by simp
    with r fr c1 show ?thesis
      by (intro conjI exI[of _ "Filled (strip U un)"]) (simp_all add: count_def ended_def)
  qed
qed

text \<open>
  The two outcomes of the translation of an eligible entry: nothing is written and the
  loop goes on, or a written value is stored under the key and the counter grows by one.
\<close>

lemma translate_entry_cases:
  assumes t: "translate_entry U svc a fp k (m, st) = (brk, m', st')"
    and c: "cache_ok U svc (st_cache st)"
  shows "cache_ok U svc (st_cache st') \<and> st_submitted st' = st_submitted st @ [(fp, k)] \<and>
     ((m' = m \<and> \<not> brk \<and> st_filled st' = st_filled st) \<or>
      (st_filled st' = st_filled st + 1 \<and> brk = (arg_max a \<le> st_filled st') \<and>
       (\<exists>x. m' = AList.update k (JStr x) m \<and> written U svc k x)))"
proof -
  from translate_entry_result[OF t c] obtain oc where
    r: "cache_ok U svc (st_cache st')" "st_submitted st' = st_submitted st @ [(fp, k)]"
      "outcome_ok U svc (fp, k) oc"
      "case oc of
           Filled x \<Rightarrow> m' = AList.update k (JStr x) m \<and> st_filled st' = st_filled st + 1 \<and>
                       brk = (arg_max a \<le> st_filled st')
         | _ \<Rightarrow> m' = m \<and> \<not> brk \<and> st_filled st' = st_filled st"
    by blast
  then show ?thesis by (cases oc) (auto simp: written_iff)
qed

lemma fill_entry_cases:
  assumes f: "fill_entry U svc a fp k v (m, st) = (brk, m', st')"
    and c: "cache_ok U svc (st_cache st)"
  shows "cache_ok U svc (st_cache st') \<and>
     ((m' = m \<and> \<not> brk \<and> st_filled st' = st_filled st \<and> st_submitted st' = st_submitted st) \<or>
      (is_empty v \<and> key_ok U a k \<and> st_submitted st' = st_submitted st @ [(fp, k)] \<and>
       ((m' = m \<and> \<not> brk \<and> st_filled st' = st_filled st) \<or>
        (st_filled st' = st_filled st + 1 \<and> brk = (arg_max a \<le> st_filled st') \<and>
         (\<exists>x. m' = AList.update k (JStr x) m \<and> written U svc k x)))))"
proof (cases "is_empty v \<and> key_ok U a k")
  case True
  with f have t: "translate_entry U svc a fp k
      (m, count eligible_update (count scanned_empty_update st)) = (brk, m', st')"
    by (auto simp: fill_entry_def Let_def key_ok_def)
  have "cache_ok U svc (st_cache (count eligible_update (count scanned_empty_update st)))"
    using c by (simp add: count_def)
  from translate_entry_cases[OF t this] True show ?thesis by (simp add: count_def)
next
  case False
  with f have "m' = m" "\<not> brk" "st_stats_update (\<lambda>_. st_stats st') st = st'"
    by (auto simp: fill_entry_def Let_def key_ok_def count_def split: if_splits)
  moreover from this(3) have "st_cache st' = st_cache st" "st_filled st' = st_filled st"
      "st_submitted st' = st_submitted st"
    by (metis state.select_convs state.surjective state.update_convs(1))+
  ultimately show ?thesis using c by simp
qed

section \<open>What the loops do to the document\<close>

lemma entry_rel_refl: "entry_rel U svc a items e e"
  by (simp add: entry_rel_def)

lemma entry_rel_trans:
  "entry_rel U svc a items e e1 \<Longrightarrow> entry_rel U svc a items e1 e2 \<Longrightarrow> entry_rel U svc a items e e2"
  unfolding entry_rel_def by auto

lemma entry_rel_mono:
  "set items \<subseteq> set items' \<Longrightarrow> entry_rel U svc a items e e' \<Longrightarrow> entry_rel U svc a items' e e'"
  unfolding entry_rel_def by blast

lemma entry_rel_keys:
  "list_all2 (entry_rel U svc a items) m m' \<Longrightarrow> map fst m' = map fst m"
  by (induction m m' rule: list_all2_induct) (auto simp: entry_rel_def)

lemma update_entry_rel:
  assumes "k \<in> fst ` set m" "key_ok U a k" "(k, v0) \<in> set items" "is_empty v0"
    "written U svc k x"
  shows "list_all2 (entry_rel U svc a items) m (AList.update k (JStr x) m)"
  using assms(1)
proof (induction m)
  case Nil
  then show ?case by simp
next
  case (Cons e m)
  show ?case
  proof (cases "fst e = k")
    case True
    have "entry_rel U svc a items e (k, JStr x)"
      using True assms(2-5) unfolding entry_rel_def by auto
    with True show ?thesis
      by (simp add: list_all2_refl entry_rel_refl)
  next
    case False
    with Cons.prems have "k \<in> fst ` set m" by auto
    from Cons.IH[OF this] False show ?thesis by (simp add: entry_rel_refl)
  qed
qed

text \<open>
  The inner loop: every entry keeps its key and keeps its value or receives a written
  value; the entries submitted are entries of this file path that pass the filters.
\<close>

lemma inner_loop_rel:
  assumes "inner_loop U svc a fp items (m, st) = (m', st')"
    and "fst ` set items \<subseteq> fst ` set m"
    and "cache_ok U svc (st_cache st)"
  shows "list_all2 (entry_rel U svc a items) m m' \<and> cache_ok U svc (st_cache st') \<and>
     (\<exists>new. st_submitted st' = st_submitted st @ new \<and>
        (\<forall>e \<in> set new. fst e = fp \<and> key_ok U a (snd e)))"
  using assms
proof (induction items arbitrary: m st)
  case Nil
  then show ?case by (simp add: list_all2_refl entry_rel_refl)
next
  case (Cons kv items)
  obtain k v where kv: "kv = (k, v)" by force
  obtain brk m1 st1 where f: "fill_entry U svc a fp k v (m, st) = (brk, m1, st1)"
    by (metis surj_pair)
  note fc = fill_entry_cases[OF f Cons.prems(3)]
  have kin: "k \<in> fst ` set m" using Cons.prems(2) kv by auto
  have rel1: "list_all2 (entry_rel U svc a (kv # items)) m m1"
  proof (cases "m1 = m")
    case True
    then show ?thesis by (simp add: list_all2_refl entry_rel_refl)
  next
    case False
    with fc obtain x where "is_empty v" "key_ok U a k" "m1 = AList.update k (JStr x) m"
      "written U svc k x" by blast
    with update_entry_rel[OF kin, of U a v "kv # items" svc x] kv show ?thesis by simp
  qed
  have sub1: "\<exists>new. st_submitted st1 = st_submitted st @ new \<and>
        (\<forall>e \<in> set new. fst e = fp \<and> key_ok U a (snd e))"
  proof (cases "st_submitted st1 = st_submitted st")
    case True
    then show ?thesis by simp
  next
    case False
    with fc have "key_ok U a k" "st_submitted st1 = st_submitted st @ [(fp, k)]" by auto
    then show ?thesis by simp
  qed
  show ?case
  proof (cases brk)
    case True
    with Cons.prems(1) kv f have "m' = m1" "st' = st1" by auto
    with rel1 sub1 fc show ?thesis by blast
  next
    case False
    with Cons.prems(1) kv f have i: "inner_loop U svc a fp items (m1, st1) = (m', st')" by simp
    have "fst ` set m1 = fst ` set m"
      using entry_rel_keys[OF rel1] by (metis set_map)
    with Cons.prems(2) have k1: "fst ` set items \<subseteq> fst ` set m1" by auto
    from fc have c1: "cache_ok U svc (st_cache st1)" by simp
    from Cons.IH[OF i k1 c1] obtain new where
      r2: "list_all2 (entry_rel U svc a items) m1 m'" and c2: "cache_ok U svc (st_cache st')"
      and s2: "st_submitted st' = st_submitted st1 @ new"
        "\<forall>e \<in> set new. fst e = fp \<and> key_ok U a (snd e)" by blast
    have "list_all2 (entry_rel U svc a (kv # items)) m1 m'"
      by (rule list_all2_mono[OF r2]) (auto intro: entry_rel_mono[rotated])
    with rel1 have "list_all2 (entry_rel U svc a (kv # items)) m m'"
      by (rule list_all2_trans[rotated]) (rule entry_rel_trans)
    moreover from sub1 s2 have "\<exists>new. st_submitted st' = st_submitted st @ new \<and>
        (\<forall>e \<in> set new. fst e = fp \<and> key_ok U a (snd e))"
      by auto
    ultimately show ?thesis using c2 by blast
  qed
qed

lemma count_not_whitelisted_frame:
  "st_cache (count_not_whitelisted items st) = st_cache st \<and>
   st_filled (count_not_whitelisted items st) = st_filled st \<and>
   st_sent (count_not_whitelisted items st) = st_sent st \<and>
   st_submitted (count_not_whitelisted items st) = st_submitted st"
  by (induction items arbitrary: st) (auto simp: count_def)

lemma doc_rel_refl: "doc_rel U svc a pfxs d d"
  unfolding doc_rel_def
  by (cases "snd d") (auto simp: list_all2_refl entry_rel_refl)

text \<open>The outer loop: the same for every item of the document.\<close>

lemma outer_loop_rel:
  assumes "outer_loop U svc a pfxs data st = (data', st')"
    and "cache_ok U svc (st_cache st)"
  shows "list_all2 (doc_rel U svc a pfxs) data data' \<and> cache_ok U svc (st_cache st') \<and>
     (\<exists>new. st_submitted st' = st_submitted st @ new \<and>
        (\<forall>e \<in> set new. path_whitelisted (fst e) pfxs \<and> key_ok U a (snd e)))"
  using assms
proof (induction data arbitrary: st data' st')
  case Nil
  then show ?case by simp
next
  case (Cons d rest)
  obtain fp v where d: "d = (fp, v)" by force
  show ?case
  proof (cases "\<exists>m. v = JObj m")
    case False
    obtain rest1 st1 where o: "outer_loop U svc a pfxs rest st = (rest1, st1)" by force
    with Cons.prems(1) d False have r: "data' = (fp, v) # rest1" "st' = st1"
      by (cases v; simp)+
    from Cons.IH[OF o Cons.prems(2)] r d show ?thesis
      by (simp add: doc_rel_refl)
  next
    case True
    then obtain m where v: "v = JObj m" by blast
    show ?thesis
    proof (cases "path_whitelisted fp pfxs")
      case False
      let ?st0 = "count_not_whitelisted m st"
      obtain rest1 st1 where o: "outer_loop U svc a pfxs rest ?st0 = (rest1, st1)" by force
      with Cons.prems(1) d v False have r: "data' = (fp, v) # rest1" "st' = st1" by auto
      have "cache_ok U svc (st_cache ?st0)"
        using Cons.prems(2) by (simp add: count_not_whitelisted_frame)
      from Cons.IH[OF o this] r d show ?thesis
        by (simp add: doc_rel_refl count_not_whitelisted_frame)
    next
      case True
      obtain m1 st1 where i: "inner_loop U svc a fp m (m, st) = (m1, st1)" by force
      from inner_loop_rel[OF i _ Cons.prems(2)] obtain new where
        r1: "list_all2 (entry_rel U svc a m) m m1" and c1: "cache_ok U svc (st_cache st1)"
        and s1: "st_submitted st1 = st_submitted st @ new"
          "\<forall>e \<in> set new. fst e = fp \<and> key_ok U a (snd e)" by blast
      have d1: "doc_rel U svc a pfxs d (fp, JObj m1)"
        using r1 True d v by (simp add: doc_rel_def)
      have s1': "\<forall>e \<in> set new. path_whitelisted (fst e) pfxs \<and> key_ok U a (snd e)"
        using s1(2) True by auto
      show ?thesis
      proof (cases "arg_max a \<le> st_filled st1")
        case True
        with Cons.prems(1) d v \<open>path_whitelisted fp pfxs\<close> i
        have r: "data' = (fp, JObj m1) # rest" "st' = st1" by auto
        have "list_all2 (doc_rel U svc a pfxs) rest rest"
          by (simp add: list_all2_refl doc_rel_refl)
        with r d1 c1 s1(1) s1' show ?thesis by auto
      next
        case False
        obtain rest1 st2 where o: "outer_loop U svc a pfxs rest st1 = (rest1, st2)" by force
        with Cons.prems(1) d v \<open>path_whitelisted fp pfxs\<close> i False
        have r: "data' = (fp, JObj m1) # rest1" "st' = st2" by auto
        from Cons.IH[OF o c1] obtain new2 where
          "list_all2 (doc_rel U svc a pfxs) rest rest1" "cache_ok U svc (st_cache st2)"
          "st_submitted st2 = st_submitted st1 @ new2"
          "\<forall>e \<in> set new2. path_whitelisted (fst e) pfxs \<and> key_ok U a (snd e)" by blast
        with r d1 s1(1) s1' show ?thesis by auto
      qed
    qed
  qed
qed

text \<open>The facts about a run of \<open>main\<close> that the properties below start from.\<close>

lemma main_rel:
  assumes "main U svc a (JObj data) = Inr (JObj data', st)"
  shows "list_all2 (doc_rel U svc a (whitelist a)) data data'"
    and "\<forall>e \<in> set (st_submitted st). path_whitelisted (fst e) (whitelist a) \<and> key_ok U a (snd e)"
proof -
  from assms have o: "outer_loop U svc a (whitelist a) data init_state = (data', st)"
    by (auto simp: main_def split: prod.splits)
  have "cache_ok U svc (st_cache init_state)" by (simp add: cache_ok_def init_state_def)
  from outer_loop_rel[OF o this]
  show "list_all2 (doc_rel U svc a (whitelist a)) data data'"
    and "\<forall>e \<in> set (st_submitted st). path_whitelisted (fst e) (whitelist a) \<and> key_ok U a (snd e)"
    by (auto simp: init_state_def)
qed

section \<open>Entries of the document before and after a run\<close>

lemma main_mapping:
  assumes run: "main U svc a (JObj data) = Inr (JObj data', st)"
    and i: "i < length data" "data ! i = (fp, JObj m)"
  obtains m' where "data' ! i = (fp, JObj m')" "list_all2 (entry_rel U svc a m) m m'"
proof -
  from main_rel(1)[OF run] i have "doc_rel U svc a (whitelist a) (fp, JObj m) (data' ! i)"
    by (metis list_all2_nthD)
  then have "\<exists>m'. data' ! i = (fp, JObj m') \<and> list_all2 (entry_rel U svc a m) m m'"
    unfolding doc_rel_def
    by (cases "data' ! i") (auto simp: list_all2_refl entry_rel_refl split: if_splits)
  then show ?thesis using that by blast
qed

lemma main_entry:
  assumes run: "main U svc a (JObj data) = Inr (JObj data', st)"
    and i: "i < length data" "data ! i = (fp, JObj m)"
    and j: "j < length m" "m ! j = (k, v)"
  obtains m' where "data' ! i = (fp, JObj m')" "entry_rel U svc a m (k, v) (m' ! j)"
proof -
  from main_mapping[OF run i] obtain m' where
    m': "data' ! i = (fp, JObj m')" "list_all2 (entry_rel U svc a m) m m'" by blast
  from m'(2) j have "entry_rel U svc a m (k, v) (m' ! j)"
    by (metis list_all2_nthD)
  with m'(1) show ?thesis using that by blast
qed

lemma is_high_risk_iff:
  "is_high_risk U text =
     (let t = strip U text in
      t = [] \<or> 180 < length t \<or> py_in (ustr ''://'') t \<or> prefix (ustr ''mailto:'') t \<or>
      search RE_FILELIKE t \<or> fullmatch RE_IDENTIFIER t \<or>
      py_in (ustr ''::'') t \<or> py_in (ustr ''->'') t \<or> py_in (ustr ''=>'') t \<or>
      search RE_DEBUG_FMT t \<or> fullmatch (RE_PUNCT_ONLY U) t \<or> fullmatch (RE_NUMBER_ONLY U) t \<or>
      (\<not> py_in (ustr '' '') t \<and> fullmatch RE_CAMEL_NO_SPACE t
         \<and> search (Cls lower) t \<and> search (Cls upper) t))"
  by (auto simp: is_high_risk_def Let_def)

text \<open>
  C1: an entry whose original string is classified high-risk, or holds no ASCII letter,
  is never submitted for translation, and its value in the output is its value in the input.
\<close>

theorem C1_high_risk_never_submitted:
  assumes "main U svc a (JObj data) = Inr (JObj data', st)"
    and "i < length data" and "data ! i = (fp, JObj m)"
    and "j < length m" and "m ! j = (k, v)"
    and "is_high_risk U k \<or> \<not> contains_letters k"
  shows "(\<forall>fp'. (fp', k) \<notin> set (st_submitted st)) \<and>
         (\<exists>m'. data' ! i = (fp, JObj m') \<and> m' ! j = (k, v))"
proof -
  have nk: "\<not> key_ok U a k" using assms(6) by (auto simp: key_ok_def)
  from main_rel(2)[OF assms(1)] nk have "\<forall>fp'. (fp', k) \<notin> set (st_submitted st)"
    by fastforce
  moreover
  from main_entry[OF assms(1-5)] obtain m' where
    m': "data' ! i = (fp, JObj m')" "entry_rel U svc a m (k, v) (m' ! j)" by blast
  from m'(2) nk have "m' ! j = (k, v)"
    unfolding entry_rel_def by (cases "m' ! j") auto
  ultimately show ?thesis using m'(1) by blast
qed

text \<open>
  C3: an entry whose value is neither \<open>None\<close> nor the empty string has the same value in
  the output; only empty entries are modified.
\<close>

theorem C3_non_empty_values_kept:
  assumes "main U svc a (JObj data) = Inr (JObj data', st)"
    and "i < length data" and "data ! i = (fp, JObj m)" and "wf_dict m"
    and "j < length m" and "m ! j = (k, v)"
    and "\<not> is_empty v"
  shows "\<exists>m'. data' ! i = (fp, JObj m') \<and> m' ! j = (k, v)"
proof -
  from main_entry[OF assms(1-3) assms(5,6)] obtain m' where
    m': "data' ! i = (fp, JObj m')" "entry_rel U svc a m (k, v) (m' ! j)" by blast
  have "(k, v) \<in> set m" using assms(5,6) by (metis nth_mem)
  with assms(4) have "\<And>v0. (k, v0) \<in> set m \<Longrightarrow> v0 = v"
    unfolding wf_dict_def by (meson eq_key_imp_eq_value)
  with assms(7) m'(2) have "m' ! j = (k, v)"
    unfolding entry_rel_def by (cases "m' ! j") auto
  with m'(1) show ?thesis by blast
qed

text \<open>
  C5: the output has the file paths of the input in their order, every mapping has its
  original strings in their order, and a value that is not a mapping is unchanged.
\<close>

theorem C5_keys_and_order_kept:
  assumes "main U svc a (JObj data) = Inr (JObj data', st)"
  shows "map fst data' = map fst data \<and>
         (\<forall>i < length data.
            case snd (data ! i) of
              JObj m \<Rightarrow> (\<exists>m'. snd (data' ! i) = JObj m' \<and> map fst m' = map fst m)
            | v \<Rightarrow> snd (data' ! i) = v)"
proof -
  note rel = main_rel(1)[OF assms]
  have "map fst data' = map fst data"
    using rel by (induction data data' rule: list_all2_induct) (auto simp: doc_rel_def)
  moreover
  have "case snd (data ! i) of
              JObj m \<Rightarrow> (\<exists>m'. snd (data' ! i) = JObj m' \<and> map fst m' = map fst m)
            | v \<Rightarrow> snd (data' ! i) = v" if "i < length data" for i
  proof (cases "snd (data ! i)")
    case (JObj m)
    then have "data ! i = (fst (data ! i), JObj m)" by (metis prod.collapse)
    from main_mapping[OF assms that this] obtain m' where
      "data' ! i = (fst (data ! i), JObj m')" "list_all2 (entry_rel U svc a m) m m'" by blast
    with JObj show ?thesis by (auto dest: entry_rel_keys)
  qed (use rel that in \<open>auto simp: doc_rel_def dest!: list_all2_nthD[where p=i]\<close>)
  ultimately show ?thesis by blast
qed

lemma count_not_whitelisted_eq:
  "count_not_whitelisted m st =
     st\<lparr>st_stats := (st_stats st)
        \<lparr>scanned_empty := scanned_empty (st_stats st) + int (length (filter (\<lambda>e. is_empty (snd e)) m)),
         skipped_not_whitelisted :=
           skipped_not_whitelisted (st_stats st) + int (length (filter (\<lambda>e. is_empty (snd e)) m))\<rparr>\<rparr>"
proof (induction m arbitrary: st)
  case Nil
  then show ?case by simp
next
  case (Cons e m)
  obtain k v where e: "e = (k, v)" by force
  show ?case unfolding e by (simp add: Cons.IH count_def add.assoc)
qed

text \<open>
  C7: under a file path outside the whitelist the whole value is unchanged and none of its
  entries is submitted; the loop over such a mapping only adds the number of its empty
  values to \<open>scanned_empty\<close> and \<open>skipped_not_whitelisted\<close>.
\<close>

theorem C7_not_whitelisted_unchanged:
  assumes "main U svc a (JObj data) = Inr (JObj data', st)"
    and "i < length data" and "data ! i = (fp, v)"
    and "\<not> path_whitelisted fp (whitelist a)"
  shows "data' ! i = (fp, v) \<and> (\<forall>k. (fp, k) \<notin> set (st_submitted st)) \<and>
         (\<forall>m st0. v = JObj m \<longrightarrow>
            outer_loop U svc a (whitelist a) [(fp, v)] st0 =
              ([(fp, v)],
               st0\<lparr>st_stats := (st_stats st0)
                 \<lparr>scanned_empty :=
                    scanned_empty (st_stats st0) + int (length (filter (\<lambda>e. is_empty (snd e)) m)),
                  skipped_not_whitelisted :=
                    skipped_not_whitelisted (st_stats st0)
                    + int (length (filter (\<lambda>e. is_empty (snd e)) m))\<rparr>\<rparr>))"
proof -
  from main_rel(1)[OF assms(1)] assms(2,3)
  have "doc_rel U svc a (whitelist a) (fp, v) (data' ! i)"
    by (metis list_all2_nthD)
  with assms(4) have "data' ! i = (fp, v)"
    unfolding doc_rel_def by (cases "data' ! i"; cases v) auto
  moreover from main_rel(2)[OF assms(1)] assms(4)
  have "\<forall>k. (fp, k) \<notin> set (st_submitted st)" by fastforce
  moreover have "outer_loop U svc a (whitelist a) [(fp, JObj m)] st0 =
      ([(fp, JObj m)], count_not_whitelisted m st0)" for m st0
    using assms(4) by simp
  ultimately show ?thesis by (simp add: count_not_whitelisted_eq)
qed

section \<open>The limit on the number of fills\<close>

lemma translate_entry_filled:
  assumes "translate_entry U svc a fp k (m, st) = (brk, m', st')"
  shows "filled (st_stats st') - st_filled st' = filled (st_stats st) - st_filled st"
proof -
  obtain masked phs where mk: "mask_placeholders U k = (masked, phs)" by force
  obtain ok out st1 where tr: "translate_with_retries U svc masked
      (st\<lparr>st_submitted := st_submitted st @ [(fp, k)]\<rparr>) = ((ok, out), st1)"
    by (metis surj_pair)
  from translate_with_retries_frame[OF tr]
  have fr: "st_stats st1 = st_stats st" "st_filled st1 = st_filled st" by simp_all
  obtain ok2 un where um: "unmask_placeholders out phs = (ok2, un)" by force
  from assms show ?thesis
    unfolding translate_entry_def
    by (auto simp: mk tr um fr Let_def count_def ended_def split: if_splits)
qed

lemma fill_entry_filled:
  assumes f: "fill_entry U svc a fp k v (m, st) = (brk, m', st')"
  shows "filled (st_stats st') - st_filled st' = filled (st_stats st) - st_filled st"
proof (cases "is_empty v \<and> contains_letters k \<and> \<not> is_high_risk U k
               \<and> \<not> (arg_require_uppercase_start a \<and> \<not> uiish U k)")
  case True
  with f have t: "translate_entry U svc a fp k
      (m, count eligible_update (count scanned_empty_update st)) = (brk, m', st')"
    by (simp add: fill_entry_def Let_def)
  from translate_entry_filled[OF t] show ?thesis by (simp add: count_def)
next
  case False
  with f show ?thesis
    by (auto simp: fill_entry_def Let_def count_def split: if_splits)
qed

lemma changed_entries_refl: "changed_entries m m = 0"
  by (induction m) (auto simp: changed_entries_def)

lemma changed_entries_update: "changed_entries m (AList.update k x m) \<le> 1"
proof (induction m)
  case Nil
  then show ?case by (simp add: changed_entries_def)
next
  case (Cons e m)
  show ?case
  proof (cases "fst e = k")
    case True
    have "changed_entries (e # m) ((k, x) # m) \<le> 1"
      using changed_entries_refl[of m] by (simp add: changed_entries_def)
    with True show ?thesis by simp
  next
    case False
    with Cons.IH show ?thesis by (simp add: changed_entries_def)
  qed
qed

lemma changed_entries_triangle:
  "length m = length m1 \<Longrightarrow> length m1 = length m2 \<Longrightarrow>
     changed_entries m m2 \<le> changed_entries m m1 + changed_entries m1 m2"
  by (induction m m1 m2 rule: list_induct3) (auto simp: changed_entries_def)

lemma inner_loop_filled:
  assumes "inner_loop U svc a fp items (m, st) = (m', st')"
    and "fst ` set items \<subseteq> fst ` set m"
    and "cache_ok U svc (st_cache st)"
  shows "int (changed_entries m m') \<le> st_filled st' - st_filled st \<and>
     filled (st_stats st') - st_filled st' = filled (st_stats st) - st_filled st \<and>
     (st_filled st < arg_max a \<longrightarrow> st_filled st' \<le> arg_max a)"
  using assms
proof (induction items arbitrary: m st)
  case Nil
  then show ?case by (simp add: changed_entries_refl)
next
  case (Cons kv items)
  obtain k v where kv: "kv = (k, v)" by force
  obtain brk m1 st1 where f: "fill_entry U svc a fp k v (m, st) = (brk, m1, st1)"
    by (metis surj_pair)
  note fc = fill_entry_cases[OF f Cons.prems(3)]
  note ff = fill_entry_filled[OF f]
  have kin: "k \<in> fst ` set m" using Cons.prems(2) kv by auto
  have kin': "k \<in> set (map fst m)" using kin by simp
  have keys1: "map fst m1 = map fst m"
  proof (cases "m1 = m")
    case True
    then show ?thesis by simp
  next
    case False
    with fc obtain x where "m1 = AList.update k (JStr x) m" by blast
    with kin' show ?thesis by (simp add: update_keys)
  qed
  have ch1: "int (changed_entries m m1) \<le> st_filled st1 - st_filled st"
  proof (cases "m1 = m")
    case True
    with fc show ?thesis by (auto simp: changed_entries_refl)
  next
    case False
    with fc obtain x where "m1 = AList.update k (JStr x) m" "st_filled st1 = st_filled st + 1"
      by blast
    with changed_entries_update[of m k "JStr x"] show ?thesis by simp
  qed
  have b1: "st_filled st < arg_max a \<longrightarrow> st_filled st1 \<le> arg_max a \<and> (\<not> brk \<longrightarrow> st_filled st1 < arg_max a)"
    using fc by auto
  show ?case
  proof (cases brk)
    case True
    with Cons.prems(1) kv f have "m' = m1" "st' = st1" by auto
    with ch1 ff b1 show ?thesis by simp
  next
    case False
    with Cons.prems(1) kv f have i: "inner_loop U svc a fp items (m1, st1) = (m', st')" by simp
    have "fst ` set m1 = fst ` set m" using keys1 by (metis set_map)
    with Cons.prems(2) have k1: "fst ` set items \<subseteq> fst ` set m1" by auto
    from fc have c1: "cache_ok U svc (st_cache st1)" by simp
    note ih = Cons.IH[OF i k1 c1]
    from inner_loop_rel[OF i k1 c1] have "map fst m' = map fst m1"
      by (auto dest: entry_rel_keys)
    with keys1 have "length m = length m1" "length m1 = length m'"
      by (metis length_map)+
    from changed_entries_triangle[OF this] ih ch1
    have "int (changed_entries m m') \<le> st_filled st' - st_filled st" by linarith
    with ih ff b1 False show ?thesis by auto
  qed
qed

lemma changed_doc_refl: "changed_doc data data = 0"
proof (induction data)
  case Nil
  then show ?case by (simp add: changed_doc_def)
next
  case (Cons d data)
  have "changed_item d d = 0"
    by (cases "snd d") (auto simp: changed_item_def changed_entries_refl)
  with Cons show ?case by (simp add: changed_doc_def)
qed

lemma changed_doc_Cons:
  "changed_doc (d # data) (d' # data') = changed_item d d' + changed_doc data data'"
  by (simp add: changed_doc_def)

lemma outer_loop_filled:
  assumes "outer_loop U svc a pfxs data st = (data', st')"
    and "cache_ok U svc (st_cache st)"
    and "st_filled st < arg_max a"
  shows "int (changed_doc data data') \<le> st_filled st' - st_filled st \<and>
     filled (st_stats st') - st_filled st' = filled (st_stats st) - st_filled st \<and>
     st_filled st' \<le> arg_max a"
  using assms
proof (induction data arbitrary: st data' st')
  case Nil
  then show ?case by (simp add: changed_doc_def)
next
  case (Cons d rest)
  obtain fp v where d: "d = (fp, v)" by force
  have same: "changed_item (fp, v) (fp, v) = 0"
    using changed_doc_refl[of "[(fp, v)]"] by (simp add: changed_doc_def)
  show ?case
  proof (cases "\<exists>m. v = JObj m")
    case False
    obtain rest1 st1 where o: "outer_loop U svc a pfxs rest st = (rest1, st1)" by force
    with Cons.prems(1) d False have r: "data' = (fp, v) # rest1" "st' = st1"
      by (cases v; simp)+
    from Cons.IH[OF o Cons.prems(2,3)] r d same show ?thesis
      by (simp add: changed_doc_Cons)
  next
    case True
    then obtain m where v: "v = JObj m" by blast
    show ?thesis
    proof (cases "path_whitelisted fp pfxs")
      case False
      let ?st0 = "count_not_whitelisted m st"
      obtain rest1 st1 where o: "outer_loop U svc a pfxs rest ?st0 = (rest1, st1)" by force
      with Cons.prems(1) d v False have r: "data' = (fp, v) # rest1" "st' = st1" by auto
      have c0: "cache_ok U svc (st_cache ?st0)" "st_filled ?st0 < arg_max a"
        using Cons.prems(2,3) by (simp_all add: count_not_whitelisted_frame)
      have "filled (st_stats ?st0) = filled (st_stats st)"
        by (simp add: count_not_whitelisted_eq)
      with Cons.IH[OF o c0] r d same show ?thesis
        by (simp add: changed_doc_Cons count_not_whitelisted_frame)
    next
      case True
      obtain m1 st1 where i: "inner_loop U svc a fp m (m, st) = (m1, st1)" by force
      from inner_loop_rel[OF i _ Cons.prems(2)]
      have c1: "cache_ok U svc (st_cache st1)" by blast
      from inner_loop_filled[OF i _ Cons.prems(2)] Cons.prems(3)
      have f1: "int (changed_entries m m1) \<le> st_filled st1 - st_filled st"
        "filled (st_stats st1) - st_filled st1 = filled (st_stats st) - st_filled st"
        "st_filled st1 \<le> arg_max a" by auto
      have ci: "changed_item d (fp, JObj m1) = changed_entries m m1"
        using d v by (simp add: changed_item_def)
      show ?thesis
      proof (cases "arg_max a \<le> st_filled st1")
        case True
        with Cons.prems(1) d v \<open>path_whitelisted fp pfxs\<close> i
        have r: "data' = (fp, JObj m1) # rest" "st' = st1" by auto
        with f1 ci show ?thesis by (simp add: changed_doc_Cons changed_doc_refl)
      next
        case False
        obtain rest1 st2 where o: "outer_loop U svc a pfxs rest st1 = (rest1, st2)" by force
        with Cons.prems(1) d v \<open>path_whitelisted fp pfxs\<close> i False
        have r: "data' = (fp, JObj m1) # rest1" "st' = st2" by auto
        from False have "st_filled st1 < arg_max a" by simp
        from Cons.IH[OF o c1 this] r f1 ci show ?thesis
          by (simp add: changed_doc_Cons)
      qed
    qed
  qed
qed

text \<open>Once the counter has reached the limit, the items that follow are not visited.\<close>

lemma outer_loop_stop:
  assumes "outer_loop U svc a pfxs data st = (data', st')"
    and "st_filled st < arg_max a" and "arg_max a \<le> st_filled st'"
  shows "outer_loop U svc a pfxs (data @ later) st = (data' @ later, st')"
  using assms
proof (induction data arbitrary: st data' st')
  case Nil
  then show ?case by simp
next
  case (Cons d rest)
  obtain fp v where d: "d = (fp, v)" by force
  show ?case
  proof (cases "\<exists>m. v = JObj m")
    case False
    obtain rest1 st1 where o: "outer_loop U svc a pfxs rest st = (rest1, st1)" by force
    with Cons.prems(1) d False have r: "data' = (fp, v) # rest1" "st' = st1"
      by (cases v; simp)+
    from Cons.IH[OF o Cons.prems(2)] Cons.prems(3) r d False show ?thesis
      by (cases v; simp)
  next
    case True
    then obtain m where v: "v = JObj m" by blast
    show ?thesis
    proof (cases "path_whitelisted fp pfxs")
      case False
      let ?st0 = "count_not_whitelisted m st"
      obtain rest1 st1 where o: "outer_loop U svc a pfxs rest ?st0 = (rest1, st1)" by force
      with Cons.prems(1) d v False have r: "data' = (fp, v) # rest1" "st' = st1" by auto
      have "st_filled ?st0 < arg_max a"
        using Cons.prems(2) by (simp add: count_not_whitelisted_frame)
      from Cons.IH[OF o this] Cons.prems(3) r d v False show ?thesis by simp
    next
      case True
      obtain m1 st1 where i: "inner_loop U svc a fp m (m, st) = (m1, st1)" by force
      show ?thesis
      proof (cases "arg_max a \<le> st_filled st1")
        case True
        with Cons.prems(1) d v \<open>path_whitelisted fp pfxs\<close> i show ?thesis by auto
      next
        case False
        obtain rest1 st2 where o: "outer_loop U svc a pfxs rest st1 = (rest1, st2)" by force
        with Cons.prems(1) d v \<open>path_whitelisted fp pfxs\<close> i False
        have r: "data' = (fp, JObj m1) # rest1" "st' = st2" by auto
        from False have "st_filled st1 < arg_max a" by simp
        from Cons.IH[OF o this] Cons.prems(3) r d v \<open>path_whitelisted fp pfxs\<close> i False
        show ?thesis by simp
      qed
    qed
  qed
qed

text \<open>
  C8: with \<open>--max\<close> at least 1 the counter ends at most at the limit, it is the statistic
  \<open>filled\<close>, at most that many entries of the document differ from the input, and a run
  that has reached the limit has not visited any later item: whatever follows in the
  document is returned as it is, with the same final state.
\<close>

theorem C8_at_most_max_filled:
  assumes "main U svc a (JObj data) = Inr (JObj data', st)"
    and "1 \<le> arg_max a"
  shows "st_filled st \<le> arg_max a \<and> filled (st_stats st) = st_filled st \<and>
         int (changed_doc data data') \<le> st_filled st \<and>
         (st_filled st = arg_max a \<longrightarrow>
            main U svc a (JObj (data @ later)) = Inr (JObj (data' @ later), st))"
proof -
  from assms(1) have o: "outer_loop U svc a (whitelist a) data init_state = (data', st)"
    by (auto simp: main_def split: prod.splits)
  have c: "cache_ok U svc (st_cache init_state)" by (simp add: cache_ok_def init_state_def)
  have z: "st_filled init_state < arg_max a" using assms(2) by (simp add: init_state_def)
  from outer_loop_filled[OF o c z]
  have "st_filled st \<le> arg_max a" "filled (st_stats st) = st_filled st"
    "int (changed_doc data data') \<le> st_filled st"
    by (simp_all add: init_state_def init_stats_def)
  moreover have "main U svc a (JObj (data @ later)) = Inr (JObj (data' @ later), st)"
    if "st_filled st = arg_max a"
    using outer_loop_stop[OF o z, of later] that by (simp add: main_def)
  ultimately show ?thesis by blast
qed

section \<open>The account of a run\<close>

lemma entries_Nil: "entries [] = []"
  by (simp add: entries_def)

lemma entries_Cons: "entries (d # data) = entries [d] @ entries data"
  by (simp add: entries_def)

lemma entries_append: "entries (d1 @ d2) = entries d1 @ entries d2"
  by (simp add: entries_def)

lemma entries_mapping: "entries [(fp, JObj m)] = map (\<lambda>e. (fp, e)) m"
  by (simp add: entries_def)

lemma entries_other: "\<forall>m. v \<noteq> JObj m \<Longrightarrow> entries [(fp, v)] = []"
  by (cases v) (auto simp: entries_def)

lemma empties_append: "empties Q P (es1 @ es2) = empties Q P es1 @ empties Q P es2"
  by (simp add: empties_def)

lemma empties_Nil: "empties Q P [] = []"
  by (simp add: empties_def)

lemma run_account_refl: "run_account U svc a pfxs [] st st"
  by (simp add: run_account_def accounted_def empties_def)

lemma run_account_trans:
  assumes "run_account U svc a pfxs es1 st st1" and "run_account U svc a pfxs es2 st1 st2"
  shows "run_account U svc a pfxs (es1 @ es2) st st2"
proof -
  from assms(1) obtain o1 where
    a1: "st_outcomes st1 = st_outcomes st @ o1"
      "st_submitted st1 =
         st_submitted st @ empties (\<lambda>fp. path_whitelisted fp pfxs) (key_ok U a) es1"
      "list_all2 (outcome_ok U svc)
         (empties (\<lambda>fp. path_whitelisted fp pfxs) (key_ok U a) es1) o1"
      "accounted U a pfxs es1 o1 (st_stats st) (st_stats st1)"
    unfolding run_account_def by blast
  from assms(2) obtain o2 where
    a2: "st_outcomes st2 = st_outcomes st1 @ o2"
      "st_submitted st2 =
         st_submitted st1 @ empties (\<lambda>fp. path_whitelisted fp pfxs) (key_ok U a) es2"
      "list_all2 (outcome_ok U svc)
         (empties (\<lambda>fp. path_whitelisted fp pfxs) (key_ok U a) es2) o2"
      "accounted U a pfxs es2 o2 (st_stats st1) (st_stats st2)"
    unfolding run_account_def by blast
  have "accounted U a pfxs (es1 @ es2) (o1 @ o2) (st_stats st) (st_stats st2)"
    using a1(4) a2(4) unfolding accounted_def by (simp add: empties_append)
  moreover have "list_all2 (outcome_ok U svc)
      (empties (\<lambda>fp. path_whitelisted fp pfxs) (key_ok U a) (es1 @ es2)) (o1 @ o2)"
    using a1(3) a2(3) by (simp add: empties_append list_all2_appendI)
  ultimately show ?thesis
    unfolding run_account_def using a1(1,2) a2(1,2)
    by (intro exI[of _ "o1 @ o2"]) (simp add: empties_append)
qed

lemma classes:
  "risky U k \<or> not_uiish_key U a k \<or> key_ok U a k"
  "\<not> (risky U k \<and> not_uiish_key U a k)" "\<not> (risky U k \<and> key_ok U a k)"
  "\<not> (not_uiish_key U a k \<and> key_ok U a k)"
  by (auto simp: risky_def not_uiish_key_def key_ok_def)

text \<open>One turn of the inner loop visits one entry.\<close>

lemma fill_entry_account:
  assumes f: "fill_entry U svc a fp k v (m, st) = (brk, m', st')"
    and c: "cache_ok U svc (st_cache st)"
    and w: "path_whitelisted fp pfxs"
  shows "run_account U svc a pfxs [(fp, k, v)] st st'"
proof -
  consider (full) "\<not> is_empty v" | (risk) "is_empty v" "risky U k"
    | (nui) "is_empty v" "not_uiish_key U a k" | (ok) "is_empty v" "key_ok U a k"
    using classes(1) by blast
  then show ?thesis
  proof cases
    case full
    with f have "st' = st" by (simp add: fill_entry_def)
    with full show ?thesis
      by (simp add: run_account_def accounted_def empties_def)
  next
    case risk
    with f have "st' = count skipped_high_risk_update (count scanned_empty_update st)"
      by (auto simp: fill_entry_def Let_def risky_def split: if_splits)
    with risk w show ?thesis
      by (auto simp: run_account_def accounted_def empties_def count_def
          risky_def not_uiish_key_def key_ok_def)
  next
    case nui
    with f have "st' = count skipped_not_uiish_update (count scanned_empty_update st)"
      by (auto simp: fill_entry_def Let_def not_uiish_key_def split: if_splits)
    with nui w show ?thesis
      by (auto simp: run_account_def accounted_def empties_def count_def
          risky_def not_uiish_key_def key_ok_def)
  next
    case ok
    let ?st0 = "count eligible_update (count scanned_empty_update st)"
    from ok f have t: "translate_entry U svc a fp k (m, ?st0) = (brk, m', st')"
      by (auto simp: fill_entry_def Let_def key_ok_def)
    have c0: "cache_ok U svc (st_cache ?st0)" using c by (simp add: count_def)
    from translate_entry_result[OF t c0] obtain oc where
      r: "st_submitted st' = st_submitted st @ [(fp, k)]"
        "st_outcomes st' = st_outcomes st @ [oc]" "outcome_ok U svc (fp, k) oc"
        "st_stats st' = tally oc (st_stats ?st0)"
      by (auto simp: count_def)
    have e: "empties (\<lambda>fp. path_whitelisted fp pfxs) (key_ok U a) [(fp, k, v)] = [(fp, k)]"
      using ok w by (simp add: empties_def)
    have "accounted U a pfxs [(fp, k, v)] [oc] (st_stats st) (st_stats st')"
      using ok w r(4)
      by (cases oc) (auto simp: accounted_def empties_def count_def
          risky_def not_uiish_key_def key_ok_def)
    with r e show ?thesis
      unfolding run_account_def by (intro exI[of _ "[oc]"]) simp
  qed
qed

lemma fill_entry_break:
  assumes f: "fill_entry U svc a fp k v (m, st) = (brk, m', st')"
    and c: "cache_ok U svc (st_cache st)"
  shows "brk \<longrightarrow> arg_max a \<le> st_filled st'"
  using fill_entry_cases[OF f c] by auto

text \<open>
  The inner loop visits the entries of the mapping up to the one at which it leaves, and
  all of them if the counter has not reached the limit.
\<close>

lemma inner_loop_account:
  assumes "inner_loop U svc a fp items (m, st) = (m', st')"
    and "cache_ok U svc (st_cache st)"
    and "path_whitelisted fp pfxs"
  shows "\<exists>seen rest. items = seen @ rest \<and> (st_filled st' < arg_max a \<longrightarrow> rest = []) \<and>
           run_account U svc a pfxs (map (\<lambda>e. (fp, e)) seen) st st'"
  using assms(1,2)
proof (induction items arbitrary: m st)
  case Nil
  then have "st' = st" by simp
  then show ?case by (simp add: run_account_refl)
next
  case (Cons kv items)
  obtain k v where kv: "kv = (k, v)" by force
  obtain brk m1 st1 where f: "fill_entry U svc a fp k v (m, st) = (brk, m1, st1)"
    by (metis surj_pair)
  note a1 = fill_entry_account[OF f Cons.prems(2) assms(3)]
  from fill_entry_cases[OF f Cons.prems(2)] have c1: "cache_ok U svc (st_cache st1)" by simp
  show ?case
  proof (cases brk)
    case True
    with Cons.prems(1) kv f have e: "m' = m1" "st' = st1" by auto
    from True fill_entry_break[OF f Cons.prems(2)] e have "\<not> st_filled st' < arg_max a" by simp
    moreover have "kv # items = [kv] @ items" by simp
    moreover have "run_account U svc a pfxs (map (\<lambda>e. (fp, e)) [kv]) st st'"
      using a1 e kv by simp
    ultimately show ?thesis by blast
  next
    case False
    with Cons.prems(1) kv f have i: "inner_loop U svc a fp items (m1, st1) = (m', st')" by simp
    from Cons.IH[OF i c1] obtain seen rest where
      s: "items = seen @ rest" "st_filled st' < arg_max a \<longrightarrow> rest = []"
        "run_account U svc a pfxs (map (\<lambda>e. (fp, e)) seen) st1 st'" by blast
    from run_account_trans[OF a1 s(3)] kv
    have "run_account U svc a pfxs (map (\<lambda>e. (fp, e)) (kv # seen)) st st'" by simp
    moreover have "kv # items = (kv # seen) @ rest" using s(1) by simp
    ultimately show ?thesis using s(2) by blast
  qed
qed

text \<open>The loop over a mapping outside the whitelist visits all its entries.\<close>

lemma count_not_whitelisted_account:
  assumes "\<not> path_whitelisted fp pfxs"
  shows "run_account U svc a pfxs (map (\<lambda>e. (fp, e)) m) st (count_not_whitelisted m st)"
proof (induction m arbitrary: st)
  case Nil
  then show ?case by (simp add: run_account_refl)
next
  case (Cons e m)
  obtain k v where e: "e = (k, v)" by force
  let ?st1 = "if is_empty v
      then count skipped_not_whitelisted_update (count scanned_empty_update st) else st"
  have "run_account U svc a pfxs [(fp, k, v)] st ?st1"
    using assms by (auto simp: run_account_def accounted_def empties_def count_def)
  from run_account_trans[OF this Cons.IH[of ?st1]] e show ?case by simp
qed

lemma reaches_refl: "reaches data data"
  by (simp add: reaches_def)

lemma reaches_Cons: "reaches data part \<Longrightarrow> reaches (d # data) (d # part)"
  unfolding reaches_def
proof (elim disjE exE conjE)
  fix d1 fp m1 m2 d2
  assume "data = d1 @ (fp, JObj (m1 @ m2)) # d2" "part = d1 @ [(fp, JObj m1)]"
  then have "d # data = (d # d1) @ (fp, JObj (m1 @ m2)) # d2 \<and> d # part = (d # d1) @ [(fp, JObj m1)]"
    by simp
  then show "d # part = d # data \<or>
      (\<exists>d1 fp m1 m2 d2. d # data = d1 @ (fp, JObj (m1 @ m2)) # d2 \<and> d # part = d1 @ [(fp, JObj m1)])"
    by blast
qed simp

lemma reaches_first: "reaches ((fp, JObj (m1 @ m2)) # rest) [(fp, JObj m1)]"
proof -
  have "(fp, JObj (m1 @ m2)) # rest = [] @ (fp, JObj (m1 @ m2)) # rest \<and>
      [(fp, JObj m1)] = [] @ [(fp, JObj m1)]" by simp
  then show ?thesis unfolding reaches_def by blast
qed

text \<open>
  The outer loop visits a part of the document, and all of it if the counter has not
  reached the limit.
\<close>

lemma outer_loop_account:
  assumes "outer_loop U svc a pfxs data st = (data', st')"
    and "cache_ok U svc (st_cache st)"
  shows "\<exists>part. reaches data part \<and> (st_filled st' < arg_max a \<longrightarrow> part = data) \<and>
           run_account U svc a pfxs (entries part) st st'"
  using assms
proof (induction data arbitrary: st data' st')
  case Nil
  then have "st' = st" by simp
  then show ?case
    by (intro exI[of _ "[]"]) (simp add: reaches_refl entries_Nil run_account_refl)
next
  case (Cons d rest)
  obtain fp v where d: "d = (fp, v)" by force
  show ?case
  proof (cases "\<exists>m. v = JObj m")
    case False
    obtain rest1 st1 where o: "outer_loop U svc a pfxs rest st = (rest1, st1)" by force
    with Cons.prems(1) d False have r: "st' = st1" by (cases v; simp)
    from Cons.IH[OF o Cons.prems(2)] obtain part where
      p: "reaches rest part" "st_filled st1 < arg_max a \<longrightarrow> part = rest"
        "run_account U svc a pfxs (entries part) st st1" by blast
    have "entries (d # part) = entries part"
      using False d entries_Cons[of d part] entries_other[of v fp] by simp
    with p r show ?thesis
      by (intro exI[of _ "d # part"]) (simp add: reaches_Cons)
  next
    case True
    then obtain m where v: "v = JObj m" by blast
    show ?thesis
    proof (cases "path_whitelisted fp pfxs")
      case False
      let ?st0 = "count_not_whitelisted m st"
      obtain rest1 st1 where o: "outer_loop U svc a pfxs rest ?st0 = (rest1, st1)" by force
      with Cons.prems(1) d v False have r: "st' = st1" by auto
      have c0: "cache_ok U svc (st_cache ?st0)"
        using Cons.prems(2) by (simp add: count_not_whitelisted_frame)
      from Cons.IH[OF o c0] obtain part where
        p: "reaches rest part" "st_filled st1 < arg_max a \<longrightarrow> part = rest"
          "run_account U svc a pfxs (entries part) ?st0 st1" by blast
      have "run_account U svc a pfxs (entries [d]) st ?st0"
        using count_not_whitelisted_account[OF False] d v by (simp add: entries_mapping)
      from run_account_trans[OF this p(3)]
      have "run_account U svc a pfxs (entries (d # part)) st st1"
        using entries_Cons[of d part] by simp
      with p r show ?thesis
        by (intro exI[of _ "d # part"]) (simp add: reaches_Cons)
    next
      case True
      obtain m1 st1 where i: "inner_loop U svc a fp m (m, st) = (m1, st1)" by force
      from inner_loop_rel[OF i _ Cons.prems(2)]
      have c1: "cache_ok U svc (st_cache st1)" by blast
      from inner_loop_account[OF i Cons.prems(2) True] obtain seen unseen where
        s: "m = seen @ unseen" "st_filled st1 < arg_max a \<longrightarrow> unseen = []"
          "run_account U svc a pfxs (map (\<lambda>e. (fp, e)) seen) st st1" by blast
      show ?thesis
      proof (cases "arg_max a \<le> st_filled st1")
        case True
        with Cons.prems(1) d v \<open>path_whitelisted fp pfxs\<close> i have r: "st' = st1" by auto
        have "reaches (d # rest) [(fp, JObj seen)]"
          using d v s(1) reaches_first by simp
        moreover have "run_account U svc a pfxs (entries [(fp, JObj seen)]) st st'"
          using s(3) r by (simp add: entries_mapping)
        moreover have "\<not> st_filled st' < arg_max a" using True r by simp
        ultimately show ?thesis by blast
      next
        case False
        obtain rest1 st2 where o: "outer_loop U svc a pfxs rest st1 = (rest1, st2)" by force
        with Cons.prems(1) d v \<open>path_whitelisted fp pfxs\<close> i False have r: "st' = st2" by auto
        from False s have "seen = m" by simp
        with s(3) d v have a1: "run_account U svc a pfxs (entries [d]) st st1"
          by (simp add: entries_mapping)
        from Cons.IH[OF o c1] obtain part where
          p: "reaches rest part" "st_filled st2 < arg_max a \<longrightarrow> part = rest"
            "run_account U svc a pfxs (entries part) st1 st2" by blast
        from run_account_trans[OF a1 p(3)]
        have "run_account U svc a pfxs (entries (d # part)) st st2"
          using entries_Cons[of d part] by simp
        with p r show ?thesis
          by (intro exI[of _ "d # part"]) (simp add: reaches_Cons)
      qed
    qed
  qed
qed

text \<open>The account of a whole run of \<open>main\<close>.\<close>

lemma main_account:
  assumes "main U svc a (JObj data) = Inr (JObj data', st)"
  obtains part where "reaches data part" "st_filled st < arg_max a \<longrightarrow> part = data"
    "st_submitted st = empties (\<lambda>fp. path_whitelisted fp (whitelist a)) (key_ok U a) (entries part)"
    "list_all2 (outcome_ok U svc) (st_submitted st) (st_outcomes st)"
    "accounted U a (whitelist a) (entries part) (st_outcomes st) init_stats (st_stats st)"
proof -
  from assms have o: "outer_loop U svc a (whitelist a) data init_state = (data', st)"
    by (auto simp: main_def split: prod.splits)
  have "cache_ok U svc (st_cache init_state)" by (simp add: cache_ok_def init_state_def)
  from outer_loop_account[OF o this] obtain part where
    p: "reaches data part" "st_filled st < arg_max a \<longrightarrow> part = data"
      "run_account U svc a (whitelist a) (entries part) init_state st" by blast
  from p(3) have
    "st_submitted st = empties (\<lambda>fp. path_whitelisted fp (whitelist a)) (key_ok U a) (entries part)"
    "list_all2 (outcome_ok U svc) (st_submitted st) (st_outcomes st)"
    "accounted U a (whitelist a) (entries part) (st_outcomes st) init_stats (st_stats st)"
    unfolding run_account_def by (auto simp: init_state_def)
  with p(1,2) show ?thesis using that by blast
qed



lemma inner_loop_changed:
  assumes "inner_loop U svc a fp items (m, st) = (m', st')"
    and "fst ` set items \<subseteq> fst ` set m"
    and "cache_ok U svc (st_cache st)"
  shows "int (changed_entries m m') \<le> st_filled st' - st_filled st"
  using inner_loop_filled[OF assms] by simp

lemma outer_loop_changed:
  assumes "outer_loop U svc a pfxs data st = (data', st')"
    and "cache_ok U svc (st_cache st)"
  shows "int (changed_doc data data') \<le> st_filled st' - st_filled st"
  using assms
proof (induction data arbitrary: st data' st')
  case Nil
  then show ?case by (simp add: changed_doc_def)
next
  case (Cons d rest)
  obtain fp v where d: "d = (fp, v)" by force
  have same: "changed_item (fp, v) (fp, v) = 0"
    using changed_doc_refl[of "[(fp, v)]"] by (simp add: changed_doc_def)
  show ?case
  proof (cases "\<exists>m. v = JObj m")
    case False
    obtain rest1 st1 where o: "outer_loop U svc a pfxs rest st = (rest1, st1)" by force
    with Cons.prems(1) d False have r: "data' = (fp, v) # rest1" "st' = st1"
      by (cases v; simp)+
    from Cons.IH[OF o Cons.prems(2)] r d same show ?thesis
      by (simp add: changed_doc_Cons)
  next
    case True
    then obtain m where v: "v = JObj m" by blast
    show ?thesis
    proof (cases "path_whitelisted fp pfxs")
      case False
      let ?st0 = "count_not_whitelisted m st"
      obtain rest1 st1 where o: "outer_loop U svc a pfxs rest ?st0 = (rest1, st1)" by force
      with Cons.prems(1) d v False have r: "data' = (fp, v) # rest1" "st' = st1" by auto
      have c0: "cache_ok U svc (st_cache ?st0)"
        using Cons.prems(2) by (simp add: count_not_whitelisted_frame)
      from Cons.IH[OF o c0] r d same show ?thesis
        by (simp add: changed_doc_Cons count_not_whitelisted_frame)
    next
      case True
      obtain m1 st1 where i: "inner_loop U svc a fp m (m, st) = (m1, st1)" by force
      from inner_loop_rel[OF i _ Cons.prems(2)]
      have c1: "cache_ok U svc (st_cache st1)" by blast
      from inner_loop_changed[OF i _ Cons.prems(2)]
      have f1: "int (changed_entries m m1) \<le> st_filled st1 - st_filled st" by simp
      have ci: "changed_item d (fp, JObj m1) = changed_entries m m1"
        using d v by (simp add: changed_item_def)
      show ?thesis
      proof (cases "arg_max a \<le> st_filled st1")
        case True
        with Cons.prems(1) d v \<open>path_whitelisted fp pfxs\<close> i
        have r: "data' = (fp, JObj m1) # rest" "st' = st1" by auto
        with f1 ci show ?thesis by (simp add: changed_doc_Cons changed_doc_refl)
      next
        case False
        obtain rest1 st2 where o: "outer_loop U svc a pfxs rest st1 = (rest1, st2)" by force
        with Cons.prems(1) d v \<open>path_whitelisted fp pfxs\<close> i False
        have r: "data' = (fp, JObj m1) # rest1" "st' = st2" by auto
        from Cons.IH[OF o c1] r f1 ci show ?thesis
          by (simp add: changed_doc_Cons)
      qed
    qed
  qed
qed

text \<open>
  C4: a value that the run has changed is the service's answer to the masked original,
  stripped, unmasked with success and stripped again, and it holds a CJK character. Every
  entry submitted has one logged outcome: an unmasked translation without a CJK character
  is logged as such and not written, one with a CJK character is the value written, and
  anything else is a failed translation; at the end of the run \<open>skipped_no_chinese\<close> is
  the number of the outcomes without a CJK character, \<open>filled\<close> the number of values
  written, and no more entries than that differ from the input. When the unmasked
  translation of an eligible entry holds no CJK character, the loop body leaves the
  mapping as it is, goes on, and adds one to \<open>skipped_no_chinese\<close> and to no other outcome
  counter.
\<close>

theorem C4_written_value_validated:
  "(main U svc a (JObj data) = Inr (JObj data', st) \<and> i < length data \<and>
      data ! i = (fp, JObj m) \<and> data' ! i = (fp, JObj m') \<and> j < length m \<and> m' ! j \<noteq> m ! j \<longrightarrow>
    (\<exists>history raw unmasked.
       svc history (fst (mask_placeholders U (fst (m ! j)))) = Inr raw \<and>
       unmask_placeholders (strip U raw) (snd (mask_placeholders U (fst (m ! j))))
         = (True, unmasked) \<and>
       m' ! j = (fst (m ! j), JStr (strip U unmasked)) \<and> has_cjk (strip U unmasked))) \<and>
   (main U svc a (JObj data) = Inr (JObj data', st) \<longrightarrow>
    length (st_outcomes st) = length (st_submitted st) \<and>
    (\<forall>n < length (st_outcomes st).
       case st_outcomes st ! n of
         NoChinese u \<Rightarrow> \<not> has_cjk u \<and> unmasked_to U svc (snd (st_submitted st ! n)) u
       | Filled u \<Rightarrow> has_cjk u \<and> unmasked_to U svc (snd (st_submitted st ! n)) u
       | Failed \<Rightarrow> failed_for U svc (snd (st_submitted st ! n))) \<and>
    skipped_no_chinese (st_stats st) = int (length (filter is_NoChinese (st_outcomes st))) \<and>
    filled (st_stats st) = int (length (filter is_Filled (st_outcomes st))) \<and>
    int (changed_doc data data') \<le> int (length (filter is_Filled (st_outcomes st))) \<and>
    (\<exists>part. reaches data part \<and> (st_filled st < arg_max a \<longrightarrow> part = data) \<and>
       st_submitted st =
         empties (\<lambda>fp. path_whitelisted fp (whitelist a)) (key_ok U a) (entries part))) \<and>
   (translate_with_retries U svc (fst (mask_placeholders U k))
        (st0\<lparr>st_submitted := st_submitted st0 @ [(fp0, k)]\<rparr>) = ((True, out), st1) \<and>
      unmask_placeholders out (snd (mask_placeholders U k)) = (True, unmasked0) \<and>
      \<not> has_cjk (strip U unmasked0) \<longrightarrow>
    (\<exists>st2. translate_entry U svc a fp0 k (m0, st0) = (False, m0, st2) \<and>
       skipped_no_chinese (st_stats st2) = skipped_no_chinese (st_stats st0) + 1 \<and>
       filled (st_stats st2) = filled (st_stats st0) \<and>
       skipped_translation_failed (st_stats st2) = skipped_translation_failed (st_stats st0) \<and>
       st_filled st2 = st_filled st0 \<and>
       st_outcomes st2 = st_outcomes st0 @ [NoChinese (strip U unmasked0)]))"
proof -
  have A: "(main U svc a (JObj data) = Inr (JObj data', st) \<and> i < length data \<and>
      data ! i = (fp, JObj m) \<and> data' ! i = (fp, JObj m') \<and> j < length m \<and> m' ! j \<noteq> m ! j \<longrightarrow>
    (\<exists>history raw unmasked.
       svc history (fst (mask_placeholders U (fst (m ! j)))) = Inr raw \<and>
       unmask_placeholders (strip U raw) (snd (mask_placeholders U (fst (m ! j))))
         = (True, unmasked) \<and>
       m' ! j = (fst (m ! j), JStr (strip U unmasked)) \<and> has_cjk (strip U unmasked)))"
  proof (intro impI)
    assume h: "main U svc a (JObj data) = Inr (JObj data', st) \<and> i < length data \<and>
        data ! i = (fp, JObj m) \<and> data' ! i = (fp, JObj m') \<and> j < length m \<and> m' ! j \<noteq> m ! j"
    obtain k v where kv: "m ! j = (k, v)" by force
    from h kv main_entry[of U svc a data data' st i fp m j k v] obtain m1 where
      "data' ! i = (fp, JObj m1)" "entry_rel U svc a m (k, v) (m1 ! j)" by blast
    with h have "entry_rel U svc a m (k, v) (m' ! j)" by simp
    with h kv obtain x where "m' ! j = (k, JStr x)" "written U svc k x"
      unfolding entry_rel_def by (cases "m' ! j") auto
    then show "\<exists>history raw unmasked.
         svc history (fst (mask_placeholders U (fst (m ! j)))) = Inr raw \<and>
         unmask_placeholders (strip U raw) (snd (mask_placeholders U (fst (m ! j))))
           = (True, unmasked) \<and>
         m' ! j = (fst (m ! j), JStr (strip U unmasked)) \<and> has_cjk (strip U unmasked)"
      unfolding written_def kv by auto
  qed
  have B: "(main U svc a (JObj data) = Inr (JObj data', st) \<longrightarrow>
    length (st_outcomes st) = length (st_submitted st) \<and>
    (\<forall>n < length (st_outcomes st).
       case st_outcomes st ! n of
         NoChinese u \<Rightarrow> \<not> has_cjk u \<and> unmasked_to U svc (snd (st_submitted st ! n)) u
       | Filled u \<Rightarrow> has_cjk u \<and> unmasked_to U svc (snd (st_submitted st ! n)) u
       | Failed \<Rightarrow> failed_for U svc (snd (st_submitted st ! n))) \<and>
    skipped_no_chinese (st_stats st) = int (length (filter is_NoChinese (st_outcomes st))) \<and>
    filled (st_stats st) = int (length (filter is_Filled (st_outcomes st))) \<and>
    int (changed_doc data data') \<le> int (length (filter is_Filled (st_outcomes st))) \<and>
    (\<exists>part. reaches data part \<and> (st_filled st < arg_max a \<longrightarrow> part = data) \<and>
       st_submitted st =
         empties (\<lambda>fp. path_whitelisted fp (whitelist a)) (key_ok U a) (entries part)))"
  proof (intro impI)
    assume run: "main U svc a (JObj data) = Inr (JObj data', st)"
    from main_account[OF run] obtain part where
      p: "reaches data part" "st_filled st < arg_max a \<longrightarrow> part = data"
      "st_submitted st = empties (\<lambda>fp. path_whitelisted fp (whitelist a)) (key_ok U a) (entries part)"
      "list_all2 (outcome_ok U svc) (st_submitted st) (st_outcomes st)"
      "accounted U a (whitelist a) (entries part) (st_outcomes st) init_stats (st_stats st)"
      by blast
    from p(4) have l: "length (st_outcomes st) = length (st_submitted st)"
      by (simp add: list_all2_lengthD)
    have oc: "case st_outcomes st ! n of
           NoChinese u \<Rightarrow> \<not> has_cjk u \<and> unmasked_to U svc (snd (st_submitted st ! n)) u
         | Filled u \<Rightarrow> has_cjk u \<and> unmasked_to U svc (snd (st_submitted st ! n)) u
         | Failed \<Rightarrow> failed_for U svc (snd (st_submitted st ! n))"
      if "n < length (st_outcomes st)" for n
    proof -
      from p(4) that have "outcome_ok U svc (st_submitted st ! n) (st_outcomes st ! n)"
        by (simp add: list_all2_conv_all_nth)
      then show ?thesis by (cases "st_outcomes st ! n") simp_all
    qed
    from p(5) have s: "skipped_no_chinese (st_stats st) =
        int (length (filter is_NoChinese (st_outcomes st)))"
      "filled (st_stats st) = int (length (filter is_Filled (st_outcomes st)))"
      by (simp_all add: accounted_def init_stats_def)
    from run have o: "outer_loop U svc a (whitelist a) data init_state = (data', st)"
      by (auto simp: main_def split: prod.splits)
    have c: "cache_ok U svc (st_cache init_state)" by (simp add: cache_ok_def init_state_def)
    have z: "filled (st_stats init_state) - st_filled init_state = 0"
      by (simp add: init_state_def init_stats_def)
    have "filled (st_stats st') - st_filled st' = filled (st_stats st0) - st_filled st0"
      if "outer_loop U svc a pfxs d st0 = (d', st')" "cache_ok U svc (st_cache st0)"
      for pfxs d d' st0 st'
      using that
    proof (induction d arbitrary: st0 d' st')
      case Nil
      then show ?case by simp
    next
      case (Cons x rest)
      obtain fp v where x: "x = (fp, v)" by force
      show ?case
      proof (cases "\<exists>m. v = JObj m")
        case False
        obtain rest1 st1 where o: "outer_loop U svc a pfxs rest st0 = (rest1, st1)" by force
        with Cons.prems(1) x False have "st' = st1" by (cases v; simp)
        with Cons.IH[OF o Cons.prems(2)] show ?thesis by simp
      next
        case True
        then obtain m where v: "v = JObj m" by blast
        show ?thesis
        proof (cases "path_whitelisted fp pfxs")
          case False
          let ?s = "count_not_whitelisted m st0"
          obtain rest1 st1 where o: "outer_loop U svc a pfxs rest ?s = (rest1, st1)" by force
          with Cons.prems(1) x v False have r: "st' = st1" by auto
          have "cache_ok U svc (st_cache ?s)"
            using Cons.prems(2) by (simp add: count_not_whitelisted_frame)
          from Cons.IH[OF o this] r show ?thesis
            by (simp add: count_not_whitelisted_frame count_not_whitelisted_eq)
        next
          case True
          obtain m1 st1 where i: "inner_loop U svc a fp m (m, st0) = (m1, st1)" by force
          from inner_loop_rel[OF i _ Cons.prems(2)]
          have c1: "cache_ok U svc (st_cache st1)" by blast
          from inner_loop_filled[OF i _ Cons.prems(2)]
          have f1: "filled (st_stats st1) - st_filled st1 = filled (st_stats st0) - st_filled st0"
            by simp
          show ?thesis
          proof (cases "arg_max a \<le> st_filled st1")
            case True
            with Cons.prems(1) x v \<open>path_whitelisted fp pfxs\<close> i have "st' = st1" by auto
            with f1 show ?thesis by simp
          next
            case False
            obtain rest1 st2 where o: "outer_loop U svc a pfxs rest st1 = (rest1, st2)" by force
            with Cons.prems(1) x v \<open>path_whitelisted fp pfxs\<close> i False have "st' = st2" by auto
            with Cons.IH[OF o c1] f1 show ?thesis by simp
          qed
        qed
      qed
    qed
    from this[OF o c] z have "filled (st_stats st) = st_filled st" by simp
    moreover from outer_loop_changed[OF o c] have "int (changed_doc data data') \<le> st_filled st"
      by (simp add: init_state_def)
    ultimately have ch: "int (changed_doc data data') \<le>
        int (length (filter is_Filled (st_outcomes st)))" using s(2) by simp
    from l oc s ch p(1,2,3)
    show "length (st_outcomes st) = length (st_submitted st) \<and>
      (\<forall>n < length (st_outcomes st).
         case st_outcomes st ! n of
           NoChinese u \<Rightarrow> \<not> has_cjk u \<and> unmasked_to U svc (snd (st_submitted st ! n)) u
         | Filled u \<Rightarrow> has_cjk u \<and> unmasked_to U svc (snd (st_submitted st ! n)) u
         | Failed \<Rightarrow> failed_for U svc (snd (st_submitted st ! n))) \<and>
      skipped_no_chinese (st_stats st) = int (length (filter is_NoChinese (st_outcomes st))) \<and>
      filled (st_stats st) = int (length (filter is_Filled (st_outcomes st))) \<and>
      int (changed_doc data data') \<le> int (length (filter is_Filled (st_outcomes st))) \<and>
      (\<exists>part. reaches data part \<and> (st_filled st < arg_max a \<longrightarrow> part = data) \<and>
         st_submitted st =
           empties (\<lambda>fp. path_whitelisted fp (whitelist a)) (key_ok U a) (entries part))"
      by blast
  qed
  have C: "(translate_with_retries U svc (fst (mask_placeholders U k))
        (st0\<lparr>st_submitted := st_submitted st0 @ [(fp0, k)]\<rparr>) = ((True, out), st1) \<and>
      unmask_placeholders out (snd (mask_placeholders U k)) = (True, unmasked0) \<and>
      \<not> has_cjk (strip U unmasked0) \<longrightarrow>
    (\<exists>st2. translate_entry U svc a fp0 k (m0, st0) = (False, m0, st2) \<and>
       skipped_no_chinese (st_stats st2) = skipped_no_chinese (st_stats st0) + 1 \<and>
       filled (st_stats st2) = filled (st_stats st0) \<and>
       skipped_translation_failed (st_stats st2) = skipped_translation_failed (st_stats st0) \<and>
       st_filled st2 = st_filled st0 \<and>
       st_outcomes st2 = st_outcomes st0 @ [NoChinese (strip U unmasked0)]))"
  proof (intro impI)
    assume h: "translate_with_retries U svc (fst (mask_placeholders U k))
          (st0\<lparr>st_submitted := st_submitted st0 @ [(fp0, k)]\<rparr>) = ((True, out), st1) \<and>
        unmask_placeholders out (snd (mask_placeholders U k)) = (True, unmasked0) \<and>
        \<not> has_cjk (strip U unmasked0)"
    let ?st2 = "count skipped_no_chinese_update (ended (NoChinese (strip U unmasked0)) st1)"
    from h have t: "translate_entry U svc a fp0 k (m0, st0) = (False, m0, ?st2)"
      by (cases "mask_placeholders U k") (simp add: translate_entry_def Let_def)
    from h translate_with_retries_frame[of U svc "fst (mask_placeholders U k)"
        "st0\<lparr>st_submitted := st_submitted st0 @ [(fp0, k)]\<rparr>" "(True, out)" st1]
    have fr: "st_stats st1 = st_stats st0" "st_filled st1 = st_filled st0"
      "st_outcomes st1 = st_outcomes st0" by simp_all
    have "skipped_no_chinese (st_stats ?st2) = skipped_no_chinese (st_stats st0) + 1"
      "filled (st_stats ?st2) = filled (st_stats st0)"
      "skipped_translation_failed (st_stats ?st2) = skipped_translation_failed (st_stats st0)"
      "st_filled ?st2 = st_filled st0"
      "st_outcomes ?st2 = st_outcomes st0 @ [NoChinese (strip U unmasked0)]"
      using fr by (simp_all add: count_def ended_def)
    with t show "\<exists>st2. translate_entry U svc a fp0 k (m0, st0) = (False, m0, st2) \<and>
         skipped_no_chinese (st_stats st2) = skipped_no_chinese (st_stats st0) + 1 \<and>
         filled (st_stats st2) = filled (st_stats st0) \<and>
         skipped_translation_failed (st_stats st2) = skipped_translation_failed (st_stats st0) \<and>
         st_filled st2 = st_filled st0 \<and>
         st_outcomes st2 = st_outcomes st0 @ [NoChinese (strip U unmasked0)]"
      by blast
  qed
  show ?thesis by (rule conjI[OF A conjI[OF B C]])
qed

section \<open>Facts about strings\<close>

lemma py_in_sublist: "py_in sub s = sublist sub s"
  by (induction s) (auto simp: sublist_Cons_right)

lemma py_replace_absent: "\<not> sublist old s \<Longrightarrow> py_replace s old new = s"
proof (induction s old new rule: py_replace.induct)
  case (1 old new)
  then show ?case by auto
next
  case (2 c cs old new)
  from 2(4) have "old \<noteq> []" "\<not> prefix old (c # cs)" "\<not> sublist old cs"
    by (auto simp: sublist_Cons_right)
  with 2(3) show ?case by simp
qed

lemma py_replace_at:
  "old \<noteq> [] \<Longrightarrow> prefix old s \<Longrightarrow>
     py_replace s old new = new @ py_replace (drop (length old) s) old new"
  by (cases s) simp_all

lemma py_replace_prefix:
  assumes "old \<noteq> []"
  shows "py_replace (old @ post) old new = new @ py_replace post old new"
  using py_replace_at[OF assms, of "old @ post" new] by simp

lemma py_replace_first:
  assumes "old \<noteq> []"
    and "\<And>b. b \<noteq> [] \<Longrightarrow> suffix b pre \<Longrightarrow> \<not> prefix old (b @ old @ post)"
  shows "py_replace (pre @ old @ post) old new = pre @ new @ py_replace post old new"
  using assms(2)
proof (induction pre)
  case Nil
  show ?case using py_replace_prefix[OF assms(1)] by simp
next
  case (Cons c pre)
  have "\<not> prefix old ((c # pre) @ old @ post)"
    using Cons.prems[of "c # pre"] by simp
  moreover have "py_replace (pre @ old @ post) old new = pre @ new @ py_replace post old new"
    using Cons.prems by (intro Cons.IH) (auto intro: suffix_ConsI)
  ultimately show ?case using assms(1) by simp
qed

lemma str_nat_digits: "c \<in> set (str_nat n) \<Longrightarrow> 48 \<le> c \<and> c \<le> 57"
proof (induction n rule: str_nat.induct)
  case (1 n)
  show ?case
  proof (cases "n < 10")
    case True
    with 1(2) show ?thesis by (simp add: str_nat.simps[of n])
  next
    case False
    with 1 show ?thesis by (auto simp: str_nat.simps[of n])
  qed
qed

lemma str_nat_nonempty: "str_nat n \<noteq> []"
  by (subst str_nat.simps) simp

lemma str_nat_inj: "str_nat n = str_nat k \<Longrightarrow> n = k"
proof (induction n arbitrary: k rule: str_nat.induct)
  case (1 n)
  show ?case
  proof (cases "n < 10")
    case True
    note n = this
    show ?thesis
    proof (cases "k < 10")
      case True
      with n 1(2) show ?thesis by (simp add: str_nat.simps[of n] str_nat.simps[of k])
    next
      case False
      with n 1(2) have "[48 + n] = str_nat (k div 10) @ [48 + k mod 10]"
        by (simp add: str_nat.simps[of n] str_nat.simps[of k])
      then have "str_nat (k div 10) = []" by (metis append1_eq_conv append_Nil)
      then show ?thesis by (simp add: str_nat_nonempty)
    qed
  next
    case False
    note n = this
    show ?thesis
    proof (cases "k < 10")
      case True
      with n 1(2) have "str_nat (n div 10) @ [48 + n mod 10] = [48 + k]"
        by (simp add: str_nat.simps[of n] str_nat.simps[of k])
      then have "str_nat (n div 10) = []" by (metis append1_eq_conv append_Nil)
      then show ?thesis by (simp add: str_nat_nonempty)
    next
      case False
      with n 1(2) have "str_nat (n div 10) = str_nat (k div 10)" "n mod 10 = k mod 10"
        by (simp_all add: str_nat.simps[of n] str_nat.simps[of k])
      with 1(1)[OF n] have "n div 10 = k div 10" "n mod 10 = k mod 10" by simp_all
      then show ?thesis by (metis div_mult_mod_eq)
    qed
  qed
qed

lemma token_unfold: "token i = 95 # 95 # 80 # 72 # str_nat i @ [95, 95]"
  by (simp add: token_def ustr_def ord_def)

lemma PH_unfold: "ustr ''PH'' = [80, 72]" and uuPH_unfold: "ustr ''__PH'' = [95, 95, 80, 72]"
  by (simp_all add: ustr_def ord_def)

lemma digits_prefix:
  assumes "\<forall>c \<in> set xs. c \<noteq> (95::nat)" "\<forall>c \<in> set ys. c \<noteq> 95"
    and "prefix (xs @ 95 # r1) (ys @ 95 # r2)"
  shows "xs = ys"
  using assms
proof (induction xs arbitrary: ys)
  case Nil
  then show ?case by (cases ys) auto
next
  case (Cons x xs)
  then show ?case by (cases ys) auto
qed

lemma token_prefix_token: "prefix (token i) (token n @ X) \<Longrightarrow> i = n"
proof -
  assume "prefix (token i) (token n @ X)"
  then have "prefix (str_nat i @ 95 # [95]) (str_nat n @ 95 # (95 # X))"
    by (simp add: token_unfold)
  moreover have "\<forall>c \<in> set (str_nat i). c \<noteq> 95" "\<forall>c \<in> set (str_nat n). c \<noteq> 95"
    using str_nat_digits by fastforce+
  ultimately have "str_nat i = str_nat n" by (rule digits_prefix[rotated 2])
  then show ?thesis by (rule str_nat_inj)
qed

section \<open>Masking\<close>

lemma sublist_trans: "sublist xs ys \<Longrightarrow> sublist ys zs \<Longrightarrow> sublist xs zs"
proof -
  assume "sublist xs ys" "sublist ys zs"
  then obtain p1 s1 p2 s2 where "ys = p1 @ xs @ s1" "zs = p2 @ ys @ s2"
    by (auto simp: sublist_def)
  then have "zs = (p2 @ p1) @ xs @ (s1 @ s2)" by simp
  then show ?thesis unfolding sublist_def by blast
qed

lemma rep_ends_suffix: "rest \<in> set (rep_ends p lo hi s) \<Longrightarrow> suffix rest s"
proof (induction s arbitrary: lo hi)
  case Nil
  then show ?case by (auto split: if_splits)
next
  case (Cons c cs)
  then show ?case by (auto split: if_splits intro: suffix_ConsI)
qed

lemma ends_suffix: "rest \<in> set (ends r s) \<Longrightarrow> suffix rest s"
proof (induction r arbitrary: s rest)
  case (Cls p)
  then show ?case by (cases s) (auto split: if_splits intro: suffix_ConsI)
next
  case (Seq r1 r2)
  then obtain mid where "mid \<in> set (ends r1 s)" "rest \<in> set (ends r2 mid)" by auto
  with Seq.IH show ?case by (meson suffix_order.trans)
next
  case (Alt r1 r2)
  then show ?case by auto
next
  case (Opt r)
  then show ?case by auto
next
  case (Rep p lo hi)
  then show ?case by (auto dest: rep_ends_suffix)
next
  case Eos
  then show ?case by (auto split: if_splits)
qed

lemma orig_segments: "orig (segments r s) = s"
proof (induction r s rule: segments.induct)
  case (1 r)
  then show ?case by simp
next
  case (2 r c cs)
  show ?case
  proof (cases "ends r (c # cs)")
    case Nil
    with 2(1) show ?thesis by simp
  next
    case (Cons rest others)
    show ?thesis
    proof (cases "length rest < length (c # cs)")
      case True
      have "suffix rest (c # cs)" using Cons by (intro ends_suffix[of _ r]) simp
      then obtain pre where pre: "c # cs = pre @ rest" by (auto simp: suffix_def)
      then have tk: "take (length (c # cs) - length rest) (c # cs) = pre" by simp
      have "segments r (c # cs) =
          Match (take (length (c # cs) - length rest) (c # cs)) # segments r rest"
        using Cons True by simp
      then have "orig (segments r (c # cs)) = pre @ orig (segments r rest)"
        unfolding tk by simp
      with 2(2)[OF Cons True] pre show ?thesis by simp
    next
      case False
      with 2(3)[OF Cons False] Cons show ?thesis by simp
    qed
  qed
qed

lemma repl_all_eq: "repl_all phs sg = (masked_from (length phs) sg, phs @ holes sg)"
proof (induction sg arbitrary: phs)
  case Nil
  then show ?case by simp
next
  case (Cons x sg)
  then show ?case by (cases x) (simp_all add: Let_def)
qed

lemma mask_placeholders_eq:
  "mask_placeholders U s =
     (masked_from 0 (segments (RE_PLACEHOLDERS U) s), holes (segments (RE_PLACEHOLDERS U) s))"
  by (simp add: mask_placeholders_def repl_all_eq)

text \<open>The placeholder pattern has no empty match.\<close>

lemma placeholder_match_nonempty:
  "rest \<in> set (ends (RE_PLACEHOLDERS U) s) \<Longrightarrow> length rest < length s"
proof -
  assume a: "rest \<in> set (ends (RE_PLACEHOLDERS U) s)"
  have "\<exists>c cs. s = c # cs \<and> suffix rest cs"
    using a unfolding RE_PLACEHOLDERS_def
    by (cases s) (auto split: if_splits dest!: ends_suffix rep_ends_suffix
          intro: suffix_order.trans suffix_ConsI)
  then show ?thesis by (auto dest: suffix_length_le)
qed

section \<open>Where a token can stand in a masked string\<close>

lemma no_PH_start:
  assumes "\<not> sublist [80, 72] (orig sg)"
  shows "\<not> prefix (80 # 72 # T) (masked_from n sg)"
proof (cases sg)
  case Nil
  then show ?thesis by simp
next
  case (Cons x sg1)
  show ?thesis
  proof (cases x)
    case (Match g)
    with Cons show ?thesis by (simp add: token_unfold)
  next
    case (Lit c)
    show ?thesis
    proof (cases sg1)
      case Nil
      with Cons Lit show ?thesis by simp
    next
      case (Cons y sg2)
      show ?thesis
      proof (cases y)
        case (Match g)
        with Cons \<open>sg = x # sg1\<close> Lit show ?thesis by (simp add: token_unfold)
      next
        case (Lit c2)
        have "c = 80 \<and> c2 = 72 \<Longrightarrow> sublist [80, 72] (orig sg)"
          using Cons \<open>sg = x # sg1\<close> \<open>x = Lit c\<close> Lit
          by (simp add: sublist_Cons_right)
        with assms Cons \<open>sg = x # sg1\<close> \<open>x = Lit c\<close> Lit show ?thesis by auto
      qed
    qed
  qed
qed

lemma no_uPH_start:
  assumes "\<not> sublist [80, 72] (orig sg)"
  shows "\<not> prefix (95 # 80 # 72 # T) (masked_from n sg)"
proof (cases sg)
  case Nil
  then show ?thesis by simp
next
  case (Cons x sg1)
  show ?thesis
  proof (cases x)
    case (Match g)
    with Cons show ?thesis by (simp add: token_unfold)
  next
    case (Lit c)
    with assms Cons have "\<not> sublist [80, 72] (orig sg1)"
      by (auto simp: sublist_Cons_right)
    from no_PH_start[OF this] Cons Lit show ?thesis by simp
  qed
qed

lemma no_token_at_literal:
  assumes "\<not> sublist [80, 72] (orig sg)"
  shows "\<not> prefix (token i) (c # masked_from n sg)"
  using no_uPH_start[OF assms] by (simp add: token_unfold)

lemma no_token_in_token_tail:
  assumes "\<not> sublist [80, 72] (orig sg)"
    and "suffix u (token j)" "u \<noteq> token j" "u \<noteq> []"
  shows "\<not> prefix (token i) (u @ masked_from n sg)"
proof -
  let ?D = "str_nat j"
  have dig: "\<And>c. c \<in> set ?D \<Longrightarrow> c \<noteq> 95 \<and> c \<noteq> 80 \<and> c \<noteq> 72"
    using str_nat_digits by fastforce
  from assms(2,3) have "u = 95 # 80 # 72 # ?D @ [95, 95] \<or> u = 80 # 72 # ?D @ [95, 95]
      \<or> u = 72 # ?D @ [95, 95] \<or> suffix u (?D @ [95, 95])"
    by (auto simp: token_unfold suffix_Cons)
  moreover have "\<not> prefix (token i) (u @ masked_from n sg)" if "suffix u (?D @ [95, 95])"
  proof -
    from that have "suffix u [95, 95] \<or> (\<exists>d. suffix d ?D \<and> u = d @ [95, 95])"
      by (auto simp: suffix_append)
    then show ?thesis
    proof
      assume "suffix u [95, 95]"
      with assms(4) have "u = [95, 95] \<or> u = [95]" by (auto simp: suffix_Cons)
      then show ?thesis
        using no_PH_start[OF assms(1)] no_uPH_start[OF assms(1)]
        by (auto simp: token_unfold)
    next
      assume "\<exists>d. suffix d ?D \<and> u = d @ [95, 95]"
      then obtain d where d: "suffix d ?D" "u = d @ [95, 95]" by blast
      show ?thesis
      proof (cases d)
        case Nil
        with d show ?thesis using no_PH_start[OF assms(1)] by (simp add: token_unfold)
      next
        case (Cons x d')
        with d(1) have "x \<in> set ?D" by (auto dest: set_mono_suffix)
        with dig have "x \<noteq> 95" by blast
        with Cons d(2) show ?thesis by (simp add: token_unfold)
      qed
    qed
  qed
  ultimately show ?thesis by (auto simp: token_unfold)
qed

lemma sublist_append_cases:
  assumes "sublist t (u @ w)" "t \<noteq> []"
  shows "(\<exists>b. b \<noteq> [] \<and> suffix b u \<and> prefix t (b @ w)) \<or> sublist t w"
  using assms
proof (induction u)
  case Nil
  then show ?case by simp
next
  case (Cons x u)
  from Cons.prems(1) have "prefix t (x # u @ w) \<or> sublist t (u @ w)"
    by (simp add: sublist_Cons_right)
  then show ?case
  proof
    assume "prefix t (x # u @ w)"
    then have "x # u \<noteq> [] \<and> suffix (x # u) (x # u) \<and> prefix t ((x # u) @ w)" by simp
    then show ?thesis by blast
  next
    assume "sublist t (u @ w)"
    from Cons.IH[OF this Cons.prems(2)] show ?thesis by (auto intro: suffix_ConsI)
  qed
qed

lemma token_nonempty: "token i \<noteq> []"
  by (simp add: token_unfold)

lemma sublist_PH_token: "sublist [80, 72] (token i)"
proof -
  have "token i = [95, 95] @ [80, 72] @ (str_nat i @ [95, 95])" by (simp add: token_unfold)
  then show ?thesis unfolding sublist_def by blast
qed

text \<open>A masked string holds no token of an index below those it was given.\<close>

lemma no_earlier_token:
  assumes "\<not> sublist [80, 72] (orig sg)" "i < n"
  shows "\<not> sublist (token i) (masked_from n sg)"
  using assms
proof (induction sg arbitrary: n)
  case Nil
  then show ?case by (simp add: token_nonempty)
next
  case (Cons x sg)
  show ?case
  proof (cases x)
    case (Lit c)
    with Cons.prems(1) have np: "\<not> sublist [80, 72] (orig sg)"
      by (auto simp: sublist_Cons_right)
    from Cons.IH[OF np Cons.prems(2)] no_token_at_literal[OF np, of i c n] Lit
    show ?thesis by (simp add: sublist_Cons_right)
  next
    case (Match g)
    with Cons.prems(1) have np: "\<not> sublist [80, 72] (orig sg)"
      by (auto simp: sublist_append)
    have ih: "\<not> sublist (token i) (masked_from (Suc n) sg)"
      using Cons.IH[OF np] Cons.prems(2) by simp
    show ?thesis
    proof
      assume "sublist (token i) (masked_from n (x # sg))"
      then have "sublist (token i) (token n @ masked_from (Suc n) sg)" using Match by simp
      from sublist_append_cases[OF this token_nonempty] ih obtain b where
        b: "b \<noteq> []" "suffix b (token n)" "prefix (token i) (b @ masked_from (Suc n) sg)"
        by blast
      show False
      proof (cases "b = token n")
        case True
        with b(3) have "i = n" by (auto dest: token_prefix_token)
        with Cons.prems(2) show False by simp
      next
        case False
        from no_token_in_token_tail[OF np b(2) False b(1)] b(3) show False by blast
      qed
    qed
  qed
qed

lemma no_token_across:
  assumes "\<not> sublist [80, 72] pre" "b \<noteq> []" "suffix b pre"
  shows "\<not> prefix (token n) (b @ token n @ X)"
proof -
  have nb: "\<not> sublist [80, 72] b"
    using assms(1,3) by (meson sublist_trans suffix_imp_sublist)
  show ?thesis
  proof (cases b)
    case Nil
    with assms(2) show ?thesis by simp
  next
    case (Cons x1 b1)
    note c1 = this
    show ?thesis
    proof (cases b1)
      case Nil
      with c1 show ?thesis by (simp add: token_unfold)
    next
      case (Cons x2 b2)
      note c2 = this
      show ?thesis
      proof (cases b2)
        case Nil
        with c1 c2 show ?thesis by (simp add: token_unfold)
      next
        case (Cons x3 b3)
        note c3 = this
        show ?thesis
        proof (cases b3)
          case Nil
          with c1 c2 c3 show ?thesis by (simp add: token_unfold)
        next
          case (Cons x4 b4)
          have "x3 = 80 \<and> x4 = 72 \<Longrightarrow> sublist [80, 72] b"
            unfolding c1 c2 c3 Cons by (simp add: sublist_Cons_right)
          with nb c1 c2 c3 Cons show ?thesis by (auto simp: token_unfold)
        qed
      qed
    qed
  qed
qed

section \<open>Unmasking what was masked\<close>

lemma unmask_loop_masked:
  assumes "\<not> sublist [80, 72] (pre @ orig sg)"
  shows "unmask_loop n (holes sg) (pre @ masked_from n sg) = Some (pre @ orig sg)"
  using assms
proof (induction sg arbitrary: pre n)
  case Nil
  then show ?case by simp
next
  case (Cons x sg)
  show ?case
  proof (cases x)
    case (Lit c)
    from Cons.prems Lit have "\<not> sublist [80, 72] ((pre @ [c]) @ orig sg)" by simp
    from Cons.IH[OF this, of n] Lit show ?thesis by simp
  next
    case (Match g)
    let ?X = "masked_from (Suc n) sg"
    from Cons.prems Match have np: "\<not> sublist [80, 72] ((pre @ g) @ orig sg)" by simp
    then have np_pre: "\<not> sublist [80, 72] pre" and np_sg: "\<not> sublist [80, 72] (orig sg)"
      by (auto simp: sublist_append)
    have here: "py_in (token n) (pre @ token n @ ?X)"
      by (simp add: py_in_sublist)
    have rest: "py_replace ?X (token n) g = ?X"
      by (rule py_replace_absent) (rule no_earlier_token[OF np_sg], simp)
    have "py_replace (pre @ token n @ ?X) (token n) g = pre @ g @ py_replace ?X (token n) g"
      by (rule py_replace_first[OF token_nonempty]) (rule no_token_across[OF np_pre])
    with rest have "py_replace (pre @ token n @ ?X) (token n) g = (pre @ g) @ ?X" by simp
    with here Cons.IH[OF np, of "Suc n"] Match show ?thesis by simp
  qed
qed

text \<open>
  C2, amended: for every string in which \<open>PH\<close> does not occur, unmasking what masking
  returns succeeds with exactly the string.
\<close>

theorem C2_mask_unmask_roundtrip:
  assumes "\<not> py_in (ustr ''PH'') s"
  shows "unmask_placeholders (fst (mask_placeholders U s)) (snd (mask_placeholders U s))
           = (True, s)"
proof -
  let ?sg = "segments (RE_PLACEHOLDERS U) s"
  from assms have np: "\<not> sublist [80, 72] s" by (simp add: py_in_sublist PH_unfold)
  then have "\<not> sublist [80, 72] ([] @ orig ?sg)" by (simp add: orig_segments)
  from unmask_loop_masked[OF this, of 0]
  have "unmask_loop 0 (holes ?sg) (masked_from 0 ?sg) = Some s" by (simp add: orig_segments)
  moreover have "\<not> py_in (ustr ''__PH'') s"
  proof
    assume "py_in (ustr ''__PH'') s"
    then have "sublist ([95, 95] @ [80, 72] @ []) s" by (simp add: py_in_sublist uuPH_unfold)
    moreover have "sublist [80, 72] ([95, 95] @ [80, 72] @ [])" by (rule sublist_appendI)
    ultimately show False using np by (meson sublist_trans)
  qed
  ultimately show ?thesis
    by (simp add: unmask_placeholders_def mask_placeholders_eq)
qed

section \<open>The example run, evaluated\<close>

lemmas evals = ustr_def ord_def in_range_def ascii_tables_def lstrip_def rstrip_def strip_def
  fullmatch_def lower_def upper_def digit_def letter_def is_chr_def one_of_def dot_def
  not_rbrace_def cjk_def RE_IDENTIFIER_def RE_FILELIKE_def RE_DEBUG_FMT_def
  RE_CAMEL_NO_SPACE_def RE_PUNCT_ONLY_def RE_NUMBER_ONLY_def RE_PLACEHOLDERS_def token_def
  mask_placeholders_def unmask_placeholders_def uppercase_start_def contains_letters_def
  is_high_risk_def SAFE_SINGLE_WORDS_def DEFAULT_PREFIX_WHITELIST_def path_whitelisted_def
  uiish_def has_cjk_def is_empty_def init_stats_def init_state_def count_def
  ended_def translate_with_retries_def translate_entry_def fill_entry_def whitelist_def
  main_def Let_def str_nat.simps numeral_3_eq_3

lemmas demo_defs = svc_demo_def args_demo_def args_max1_def path_demo_def mapping_demo_def
  mapping_demo_out_def other_demo_def data_demo_def data_demo_out_def report_def

lemma demo_foo_bar: "is_high_risk ascii_tables (ustr ''foo_bar'')"
  by (simp add: evals)


lemma demo_not_whitelisted: "\<not> path_whitelisted (ustr ''other/b.rs'') (whitelist args_demo)"
  by (simp add: evals demo_defs)


lemma demo_mask_open:
  "mask_placeholders ascii_tables (ustr ''Open {name}'') = (ustr ''Open __PH0__'', [ustr ''{name}''])"
  by (simp add: evals)

lemma demo_mask_ok: "mask_placeholders ascii_tables (ustr ''OK'') = (ustr ''OK'', [])"
  by (simp add: evals)

lemma demo_items:
  "data_demo ! 0 = (path_demo, JObj mapping_demo)"
  "data_demo ! 1 = (ustr ''other/b.rs'', JObj [(ustr ''Save'', JStr [])])"
  "data_demo ! 2 = (ustr ''note'', JStr (ustr ''text''))"
  "data_demo_out ! 0 = (path_demo, JObj mapping_demo_out)"
  "data_demo_out ! 1 = (ustr ''other/b.rs'', JObj [(ustr ''Save'', JStr [])])"
  "data_demo_out ! 2 = (ustr ''note'', JStr (ustr ''text''))"
  "length data_demo = 3"
  by (simp_all add: data_demo_def data_demo_out_def other_demo_def)

lemma demo_entries:
  "mapping_demo ! 0 = (ustr ''Open {name}'', JStr [])"
  "mapping_demo ! 1 = (ustr ''open file'', JNull)"
  "mapping_demo ! 2 = (ustr ''foo_bar'', JStr [])"
  "mapping_demo ! 4 = (ustr ''Done.'', JStr (ustr ''x''))"
  "mapping_demo_out ! 0 = (ustr ''Open {name}'', JStr ([0x6253, 0x5f00, 32] @ ustr ''{name}''))"
  "mapping_demo_out ! 1 = (ustr ''open file'', JNull)"
  "mapping_demo_out ! 2 = (ustr ''foo_bar'', JStr [])"
  "mapping_demo_out ! 4 = (ustr ''Done.'', JStr (ustr ''x''))"
  "length mapping_demo = 5"
  by (simp_all add: mapping_demo_def mapping_demo_out_def)

lemma demo_wf: "wf_dict mapping_demo"
  by (simp add: wf_dict_def mapping_demo_def ustr_def ord_def)

lemma demo_run:
  "report (main ascii_tables svc_demo args_demo (JObj data_demo)) =
     Inr (JObj data_demo_out,
          \<lparr> scanned_empty = 5, eligible = 2, filled = 1, skipped_high_risk = 1,
            skipped_not_whitelisted = 1, skipped_not_uiish = 1, skipped_translation_failed = 0,
            skipped_no_chinese = 1 \<rparr>,
          1, [ustr ''Open __PH0__'', ustr ''OK''],
          [(path_demo, ustr ''Open {name}''), (path_demo, ustr ''OK'')],
          [Filled ([0x6253, 0x5f00, 32] @ ustr ''{name}''), NoChinese (ustr ''OK'')])"
  by (simp add: evals demo_defs)

lemma demo_run_max1:
  "report (main ascii_tables svc_demo args_max1 (JObj data_demo)) =
     Inr (JObj data_demo_out,
          \<lparr> scanned_empty = 1, eligible = 1, filled = 1, skipped_high_risk = 0,
            skipped_not_whitelisted = 0, skipped_not_uiish = 0, skipped_translation_failed = 0,
            skipped_no_chinese = 0 \<rparr>,
          1, [ustr ''Open __PH0__''], [(path_demo, ustr ''Open {name}'')],
          [Filled ([0x6253, 0x5f00, 32] @ ustr ''{name}'')])"
  by (simp add: evals demo_defs)

lemma demo_changed: "changed_doc data_demo data_demo_out = 1"
  by (simp add: changed_doc_def changed_item_def changed_entries_def demo_defs ustr_def ord_def)

lemma demo_run_state:
  obtains st where
    "main ascii_tables svc_demo args_demo (JObj data_demo) = Inr (JObj data_demo_out, st)"
    and "st_stats st =
          \<lparr> scanned_empty = 5, eligible = 2, filled = 1, skipped_high_risk = 1,
            skipped_not_whitelisted = 1, skipped_not_uiish = 1, skipped_translation_failed = 0,
            skipped_no_chinese = 1 \<rparr>"
    and "st_filled st = 1"
    and "st_submitted st = [(path_demo, ustr ''Open {name}''), (path_demo, ustr ''OK'')]"
    and "st_outcomes st =
          [Filled ([0x6253, 0x5f00, 32] @ ustr ''{name}''), NoChinese (ustr ''OK'')]"
  using demo_run unfolding report_def
  by (cases "main ascii_tables svc_demo args_demo (JObj data_demo)") auto

lemma demo_run_max1_state:
  obtains st where
    "main ascii_tables svc_demo args_max1 (JObj data_demo) = Inr (JObj data_demo_out, st)"
    and "st_filled st = 1"
  using demo_run_max1 unfolding report_def
  by (cases "main ascii_tables svc_demo args_max1 (JObj data_demo)") auto


theorem C1_high_risk_never_submitted_witness:
  "\<exists>st. main ascii_tables svc_demo args_demo (JObj data_demo) = Inr (JObj data_demo_out, st)
     \<and> data_demo ! 0 = (path_demo, JObj mapping_demo)
     \<and> mapping_demo ! 2 = (ustr ''foo_bar'', JStr [])
     \<and> is_high_risk ascii_tables (ustr ''foo_bar'')
     \<and> (\<forall>fp'. (fp', ustr ''foo_bar'') \<notin> set (st_submitted st))
     \<and> (\<exists>m'. data_demo_out ! 0 = (path_demo, JObj m') \<and> m' ! 2 = (ustr ''foo_bar'', JStr []))"
proof -
  from demo_run_state obtain st where
    r: "main ascii_tables svc_demo args_demo (JObj data_demo) = Inr (JObj data_demo_out, st)"
    by blast
  have "is_high_risk ascii_tables (ustr ''foo_bar'') \<or> \<not> contains_letters (ustr ''foo_bar'')"
    using demo_foo_bar by simp
  from C1_high_risk_never_submitted [OF r _ demo_items(1) _ demo_entries(3) this]
  have "(\<forall>fp'. (fp', ustr ''foo_bar'') \<notin> set (st_submitted st)) \<and>
     (\<exists>m'. data_demo_out ! 0 = (path_demo, JObj m') \<and> m' ! 2 = (ustr ''foo_bar'', JStr []))"
    by (simp add: demo_items demo_entries)
  with r demo_items(1) demo_entries(3) demo_foo_bar show ?thesis by blast
qed

theorem C3_non_empty_values_kept_witness:
  "\<exists>st. main ascii_tables svc_demo args_demo (JObj data_demo) = Inr (JObj data_demo_out, st)
     \<and> data_demo ! 0 = (path_demo, JObj mapping_demo) \<and> wf_dict mapping_demo
     \<and> mapping_demo ! 4 = (ustr ''Done.'', JStr (ustr ''x''))
     \<and> \<not> is_empty (JStr (ustr ''x''))
     \<and> (\<exists>m'. data_demo_out ! 0 = (path_demo, JObj m')
              \<and> m' ! 4 = (ustr ''Done.'', JStr (ustr ''x'')))"
proof -
  from demo_run_state obtain st where
    r: "main ascii_tables svc_demo args_demo (JObj data_demo) = Inr (JObj data_demo_out, st)"
    by blast
  have ne: "\<not> is_empty (JStr (ustr ''x''))" by (simp add: is_empty_def ustr_def)
  from C3_non_empty_values_kept [OF r _ demo_items(1) demo_wf _ demo_entries(4) ne]
  have "\<exists>m'. data_demo_out ! 0 = (path_demo, JObj m')
              \<and> m' ! 4 = (ustr ''Done.'', JStr (ustr ''x''))"
    by (simp add: demo_items demo_entries)
  with r demo_items(1) demo_wf demo_entries(4) ne show ?thesis by blast
qed

theorem C5_keys_and_order_kept_witness:
  "\<exists>st. main ascii_tables svc_demo args_demo (JObj data_demo) = Inr (JObj data_demo_out, st)
     \<and> map fst data_demo_out = map fst data_demo
     \<and> (\<exists>m'. snd (data_demo_out ! 0) = JObj m' \<and> map fst m' = map fst mapping_demo)
     \<and> snd (data_demo_out ! 2) = JStr (ustr ''text'')"
proof -
  from demo_run_state obtain st where
    r: "main ascii_tables svc_demo args_demo (JObj data_demo) = Inr (JObj data_demo_out, st)"
    by blast
  note p = C5_keys_and_order_kept [OF r]
  from p have "map fst data_demo_out = map fst data_demo" by blast
  moreover from p have "case snd (data_demo ! 0) of
      JObj m \<Rightarrow> (\<exists>m'. snd (data_demo_out ! 0) = JObj m' \<and> map fst m' = map fst m)
    | v \<Rightarrow> snd (data_demo_out ! 0) = v"
    by (simp add: demo_items(7))
  then have "\<exists>m'. snd (data_demo_out ! 0) = JObj m' \<and> map fst m' = map fst mapping_demo"
    by (simp add: demo_items(1))
  moreover from p have "case snd (data_demo ! 2) of
      JObj m \<Rightarrow> (\<exists>m'. snd (data_demo_out ! 2) = JObj m' \<and> map fst m' = map fst m)
    | v \<Rightarrow> snd (data_demo_out ! 2) = v"
    by (simp add: demo_items(7))
  then have "snd (data_demo_out ! 2) = JStr (ustr ''text'')"
    by (simp add: demo_items(3))
  ultimately show ?thesis using r by blast
qed

theorem C7_not_whitelisted_unchanged_witness:
  "\<exists>st. main ascii_tables svc_demo args_demo (JObj data_demo) = Inr (JObj data_demo_out, st)
     \<and> data_demo ! 1 = (ustr ''other/b.rs'', JObj [(ustr ''Save'', JStr [])])
     \<and> \<not> path_whitelisted (ustr ''other/b.rs'') (whitelist args_demo)
     \<and> data_demo_out ! 1 = (ustr ''other/b.rs'', JObj [(ustr ''Save'', JStr [])])
     \<and> (\<forall>k. (ustr ''other/b.rs'', k) \<notin> set (st_submitted st))
     \<and> outer_loop ascii_tables svc_demo args_demo (whitelist args_demo)
          [(ustr ''other/b.rs'', JObj [(ustr ''Save'', JStr [])])] init_state =
        ([(ustr ''other/b.rs'', JObj [(ustr ''Save'', JStr [])])],
         init_state\<lparr>st_stats := init_stats\<lparr>scanned_empty := 1, skipped_not_whitelisted := 1\<rparr>\<rparr>)"
proof -
  from demo_run_state obtain st where
    r: "main ascii_tables svc_demo args_demo (JObj data_demo) = Inr (JObj data_demo_out, st)"
    by blast
  note p = C7_not_whitelisted_unchanged [OF r _ demo_items(2) demo_not_whitelisted]
  from p have a: "data_demo_out ! 1 = (ustr ''other/b.rs'', JObj [(ustr ''Save'', JStr [])])"
    "\<forall>k. (ustr ''other/b.rs'', k) \<notin> set (st_submitted st)"
    by (simp_all add: demo_items(7))
  from p have "\<forall>m st0. JObj [(ustr ''Save'', JStr [])] = JObj m \<longrightarrow>
      outer_loop ascii_tables svc_demo args_demo (whitelist args_demo)
          [(ustr ''other/b.rs'', JObj [(ustr ''Save'', JStr [])])] st0 =
        ([(ustr ''other/b.rs'', JObj [(ustr ''Save'', JStr [])])],
         st0\<lparr>st_stats := (st_stats st0)
            \<lparr>scanned_empty :=
               scanned_empty (st_stats st0) + int (length (filter (\<lambda>e. is_empty (snd e)) m)),
             skipped_not_whitelisted :=
               skipped_not_whitelisted (st_stats st0)
               + int (length (filter (\<lambda>e. is_empty (snd e)) m))\<rparr>\<rparr>)"
    by (simp add: demo_items(7))
  then have "outer_loop ascii_tables svc_demo args_demo (whitelist args_demo)
          [(ustr ''other/b.rs'', JObj [(ustr ''Save'', JStr [])])] init_state =
        ([(ustr ''other/b.rs'', JObj [(ustr ''Save'', JStr [])])],
         init_state\<lparr>st_stats := init_stats\<lparr>scanned_empty := 1, skipped_not_whitelisted := 1\<rparr>\<rparr>)"
    by (simp add: is_empty_def init_state_def init_stats_def)
  with r a demo_items(2) demo_not_whitelisted show ?thesis by blast
qed



theorem C8_at_most_max_filled_witness:
  "\<exists>st. main ascii_tables svc_demo args_max1 (JObj data_demo) = Inr (JObj data_demo_out, st)
     \<and> 1 \<le> arg_max args_max1
     \<and> st_filled st \<le> arg_max args_max1 \<and> filled (st_stats st) = st_filled st
     \<and> changed_doc data_demo data_demo_out = 1
     \<and> int (changed_doc data_demo data_demo_out) \<le> st_filled st
     \<and> st_filled st = arg_max args_max1
     \<and> main ascii_tables svc_demo args_max1 (JObj (data_demo @ other_demo))
         = Inr (JObj (data_demo_out @ other_demo), st)"
proof -
  from demo_run_max1_state obtain st where
    r: "main ascii_tables svc_demo args_max1 (JObj data_demo) = Inr (JObj data_demo_out, st)"
    and f: "st_filled st = 1"
    by blast
  have m: "1 \<le> arg_max args_max1" "arg_max args_max1 = 1" by (simp_all add: args_max1_def)
  note p = C8_at_most_max_filled [OF r m(1), of other_demo]
  from p f m(2) have "main ascii_tables svc_demo args_max1 (JObj (data_demo @ other_demo))
         = Inr (JObj (data_demo_out @ other_demo), st)" by simp
  with r m p f demo_changed show ?thesis by auto
qed

theorem C4_written_value_validated_witness:
  "\<exists>st st1.
     main ascii_tables svc_demo args_demo (JObj data_demo) = Inr (JObj data_demo_out, st)
     \<and> data_demo ! 0 = (path_demo, JObj mapping_demo)
     \<and> data_demo_out ! 0 = (path_demo, JObj mapping_demo_out)
     \<and> mapping_demo_out ! 0 \<noteq> mapping_demo ! 0
     \<and> (\<exists>history raw unmasked.
          svc_demo history (fst (mask_placeholders ascii_tables (fst (mapping_demo ! 0)))) = Inr raw \<and>
          unmask_placeholders (strip ascii_tables raw)
            (snd (mask_placeholders ascii_tables (fst (mapping_demo ! 0)))) = (True, unmasked) \<and>
          mapping_demo_out ! 0 = (fst (mapping_demo ! 0), JStr (strip ascii_tables unmasked)) \<and>
          has_cjk (strip ascii_tables unmasked))
     \<and> st_submitted st = [(path_demo, ustr ''Open {name}''), (path_demo, ustr ''OK'')]
     \<and> st_outcomes st =
          [Filled ([0x6253, 0x5f00, 32] @ ustr ''{name}''), NoChinese (ustr ''OK'')]
     \<and> length (st_outcomes st) = length (st_submitted st)
     \<and> has_cjk ([0x6253, 0x5f00, 32] @ ustr ''{name}'')
     \<and> unmasked_to ascii_tables svc_demo (ustr ''Open {name}'')
          ([0x6253, 0x5f00, 32] @ ustr ''{name}'')
     \<and> \<not> has_cjk (ustr ''OK'')
     \<and> unmasked_to ascii_tables svc_demo (ustr ''OK'') (ustr ''OK'')
     \<and> skipped_no_chinese (st_stats st) = int (length (filter is_NoChinese (st_outcomes st)))
     \<and> skipped_no_chinese (st_stats st) = 1
     \<and> filled (st_stats st) = int (length (filter is_Filled (st_outcomes st)))
     \<and> int (changed_doc data_demo data_demo_out)
          \<le> int (length (filter is_Filled (st_outcomes st)))
     \<and> reaches data_demo data_demo
     \<and> st_submitted st =
          empties (\<lambda>fp. path_whitelisted fp (whitelist args_demo)) (key_ok ascii_tables args_demo)
            (entries data_demo)
     \<and> translate_with_retries ascii_tables svc_demo
          (fst (mask_placeholders ascii_tables (ustr ''OK'')))
          (init_state\<lparr>st_submitted := st_submitted init_state @ [(path_demo, ustr ''OK'')]\<rparr>)
         = ((True, ustr ''OK''), st1)
     \<and> unmask_placeholders (ustr ''OK'') (snd (mask_placeholders ascii_tables (ustr ''OK'')))
         = (True, ustr ''OK'')
     \<and> \<not> has_cjk (strip ascii_tables (ustr ''OK''))
     \<and> (\<exists>st2. translate_entry ascii_tables svc_demo args_demo path_demo (ustr ''OK'')
                 (mapping_demo, init_state) = (False, mapping_demo, st2) \<and>
          skipped_no_chinese (st_stats st2) = skipped_no_chinese (st_stats init_state) + 1 \<and>
          filled (st_stats st2) = filled (st_stats init_state) \<and>
          skipped_translation_failed (st_stats st2)
            = skipped_translation_failed (st_stats init_state) \<and>
          st_filled st2 = st_filled init_state \<and>
          st_outcomes st2
            = st_outcomes init_state @ [NoChinese (strip ascii_tables (ustr ''OK''))])"
proof -
  from demo_run_state obtain st where
    r: "main ascii_tables svc_demo args_demo (JObj data_demo) = Inr (JObj data_demo_out, st)"
    and s: "st_stats st =
          \<lparr> scanned_empty = 5, eligible = 2, filled = 1, skipped_high_risk = 1,
            skipped_not_whitelisted = 1, skipped_not_uiish = 1, skipped_translation_failed = 0,
            skipped_no_chinese = 1 \<rparr>"
    and f: "st_filled st = 1"
    and sub: "st_submitted st = [(path_demo, ustr ''Open {name}''), (path_demo, ustr ''OK'')]"
    and oc: "st_outcomes st =
          [Filled ([0x6253, 0x5f00, 32] @ ustr ''{name}''), NoChinese (ustr ''OK'')]"
    by blast
  have lt: "st_filled st < arg_max args_demo" using f by (simp add: args_demo_def)
  let ?st0 = "init_state\<lparr>st_submitted := st_submitted init_state @ [(path_demo, ustr ''OK'')]\<rparr>"
  have "fst (translate_with_retries ascii_tables svc_demo
      (fst (mask_placeholders ascii_tables (ustr ''OK''))) ?st0) = (True, ustr ''OK'')"
    by (simp add: evals demo_defs)
  then obtain st1 where t: "translate_with_retries ascii_tables svc_demo
      (fst (mask_placeholders ascii_tables (ustr ''OK''))) ?st0 = ((True, ustr ''OK''), st1)"
    by (metis prod.collapse)
  have u: "unmask_placeholders (ustr ''OK'') (snd (mask_placeholders ascii_tables (ustr ''OK'')))
         = (True, ustr ''OK'')"
    by (simp add: evals)
  have n: "\<not> has_cjk (strip ascii_tables (ustr ''OK''))"
    by (simp add: evals)
  have d: "mapping_demo_out ! 0 \<noteq> mapping_demo ! 0"
    by (simp add: demo_entries)
  note p = C4_written_value_validated [of ascii_tables svc_demo args_demo data_demo
      data_demo_out st 0 path_demo mapping_demo mapping_demo_out 0 "ustr ''OK''" init_state
      path_demo "ustr ''OK''" st1 "ustr ''OK''" mapping_demo]
  from p r d have a: "\<exists>history raw unmasked.
          svc_demo history (fst (mask_placeholders ascii_tables (fst (mapping_demo ! 0)))) = Inr raw \<and>
          unmask_placeholders (strip ascii_tables raw)
            (snd (mask_placeholders ascii_tables (fst (mapping_demo ! 0)))) = (True, unmasked) \<and>
          mapping_demo_out ! 0 = (fst (mapping_demo ! 0), JStr (strip ascii_tables unmasked)) \<and>
          has_cjk (strip ascii_tables unmasked)"
    using demo_items(1,4,7) demo_entries(9) by simp
  from p r have b: "length (st_outcomes st) = length (st_submitted st)"
    "\<forall>n < length (st_outcomes st).
       case st_outcomes st ! n of
         NoChinese u \<Rightarrow> \<not> has_cjk u \<and> unmasked_to ascii_tables svc_demo (snd (st_submitted st ! n)) u
       | Filled u \<Rightarrow> has_cjk u \<and> unmasked_to ascii_tables svc_demo (snd (st_submitted st ! n)) u
       | Failed \<Rightarrow> failed_for ascii_tables svc_demo (snd (st_submitted st ! n))"
    "skipped_no_chinese (st_stats st) = int (length (filter is_NoChinese (st_outcomes st)))"
    "filled (st_stats st) = int (length (filter is_Filled (st_outcomes st)))"
    "int (changed_doc data_demo data_demo_out)
          \<le> int (length (filter is_Filled (st_outcomes st)))"
    by blast+
  from b(2)[rule_format, of 0] have b0: "has_cjk ([0x6253, 0x5f00, 32] @ ustr ''{name}'')"
    "unmasked_to ascii_tables svc_demo (ustr ''Open {name}'')
          ([0x6253, 0x5f00, 32] @ ustr ''{name}'')"
    by (simp_all add: oc sub)
  from b(2)[rule_format, of 1] have b1: "\<not> has_cjk (ustr ''OK'')"
    "unmasked_to ascii_tables svc_demo (ustr ''OK'') (ustr ''OK'')"
    by (simp_all add: oc sub)
  from p r lt obtain part where c: "part = data_demo"
    "st_submitted st =
          empties (\<lambda>fp. path_whitelisted fp (whitelist args_demo)) (key_ok ascii_tables args_demo)
            (entries part)"
    by blast
  from p t u n have e: "\<exists>st2. translate_entry ascii_tables svc_demo args_demo path_demo (ustr ''OK'')
                 (mapping_demo, init_state) = (False, mapping_demo, st2) \<and>
          skipped_no_chinese (st_stats st2) = skipped_no_chinese (st_stats init_state) + 1 \<and>
          filled (st_stats st2) = filled (st_stats init_state) \<and>
          skipped_translation_failed (st_stats st2)
            = skipped_translation_failed (st_stats init_state) \<and>
          st_filled st2 = st_filled init_state \<and>
          st_outcomes st2
            = st_outcomes init_state @ [NoChinese (strip ascii_tables (ustr ''OK''))]"
    by blast
  have g: "reaches data_demo data_demo" by (simp add: reaches_def)
  have h: "skipped_no_chinese (st_stats st) = 1" by (simp add: s)
  from r demo_items(1,4) d a sub oc b(1,3,4,5) b0 b1 c(2) g h t u n e
  show ?thesis unfolding c(1) by blast
qed

theorem C2_mask_unmask_roundtrip_witness:
  "\<not> py_in (ustr ''PH'') (ustr ''Open {name}'')
   \<and> unmask_placeholders (fst (mask_placeholders ascii_tables (ustr ''Open {name}'')))
        (snd (mask_placeholders ascii_tables (ustr ''Open {name}'')))
      = (True, ustr ''Open {name}'')"
proof -
  have h: "\<not> py_in (ustr ''PH'') (ustr ''Open {name}'')"
    by (simp add: ustr_def ord_def)
  from C2_mask_unmask_roundtrip [OF h, of ascii_tables] h show ?thesis by blast
qed

theorem C2_token_in_text_counterexample:
  "unmask_placeholders (fst (mask_placeholders ascii_tables (ustr ''__PH0__'')))
        (snd (mask_placeholders ascii_tables (ustr ''__PH0__'')))
      = (False, ustr ''__PH0__'')"
  by (simp add: evals)

end
